theory Spec2Isabelle
  imports Main "HOL-Library.Word" "HOL-Library.Log_Nat" "HOL-Library.Multiset" "HOL-Library.Sublist"
begin

section \<open>Machine numbers\<close>

text \<open>
  Go's \<^verbatim>\<open>int64\<close> is a 64-bit word: \<open>+\<close> and \<open>-\<close> wrap around, \<open>sint\<close> reads the
  two's complement value and \<open><s\<close> is the signed comparison. Go's \<^verbatim>\<open>int\<close> only counts
  and indexes slices here, so it is \<open>int\<close>.

  A finite \<^verbatim>\<open>float64\<close> is denoted by the rational number it stands for. Every float64
  operation of the program is the exact operation followed by \<open>round_f64\<close>, the IEEE 754
  rounding to the nearest number with a 53-bit significand, ties to the even significand.
  The exponent range is left out: the values of this program are sums and quotients of
  at most \<open>2^63\<close> numbers of magnitude at most \<open>2^63\<close>, far from overflow and underflow.
\<close>

type_synonym int64 = "64 word"
type_synonym float64 = rat

definition MaxInt64 :: int64 where
  "MaxInt64 = 0x7FFFFFFFFFFFFFFF"

definition round_half_even :: "rat \<Rightarrow> int" where
  "round_half_even q =
     (if q - of_int \<lfloor>q\<rfloor> < 1 / 2 then \<lfloor>q\<rfloor>
      else if 1 / 2 < q - of_int \<lfloor>q\<rfloor> then \<lfloor>q\<rfloor> + 1
      else if even \<lfloor>q\<rfloor> then \<lfloor>q\<rfloor> else \<lfloor>q\<rfloor> + 1)"

text \<open>\<open>binade x\<close> is the exponent \<open>e\<close> with \<open>2^e \<le> |x| < 2^(e+1)\<close>, for \<open>x \<noteq> 0\<close>.\<close>

definition binade :: "rat \<Rightarrow> int" where
  "binade x =
     (if 1 \<le> \<bar>x\<bar> then bitlen \<lfloor>\<bar>x\<bar>\<rfloor> - 1 else - bitlen (\<lceil>1 / \<bar>x\<bar>\<rceil> - 1))"

definition round_f64 :: "rat \<Rightarrow> float64" where
  "round_f64 x =
     (if x = 0 then 0
      else of_int (round_half_even (x / power_int 2 (binade x - 52)))
             * power_int 2 (binade x - 52))"

text \<open>\<^verbatim>\<open>float64(i)\<close> for an \<^verbatim>\<open>int64\<close> and for an \<^verbatim>\<open>int\<close>, \<^verbatim>\<open>a + b\<close> and \<^verbatim>\<open>a / b\<close>.\<close>

definition f64_of_int64 :: "int64 \<Rightarrow> float64" where
  "f64_of_int64 w = round_f64 (of_int (sint w))"

definition f64_of_int :: "int \<Rightarrow> float64" where
  "f64_of_int n = round_f64 (of_int n)"

definition f64_add :: "float64 \<Rightarrow> float64 \<Rightarrow> float64" where
  "f64_add a b = round_f64 (a + b)"

definition f64_div :: "float64 \<Rightarrow> float64 \<Rightarrow> float64" where
  "f64_div a b = round_f64 (a / b)"

section \<open>Data model\<close>

text \<open>
  The ways a call ends without returning: a runtime panic, which ends the process; a wait
  that never ends; or \<^verbatim>\<open>os.Exit\<close> / \<^verbatim>\<open>log.Fatalf\<close> with an exit code.
\<close>

datatype failure =
    IndexOutOfRange int int
  | NilPointerDereference
  | MakeChanSizeOutOfRange
  | NeverReturns
  | Exit int

text \<open>
  \<^verbatim>\<open>Timestamp\<close>: the two \<^verbatim>\<open>time.Time\<close> values around a call. The program reads them only
  through \<^verbatim>\<open>UnixMilli()\<close>, so each is its Unix time in milliseconds. \<^verbatim>\<open>Response\<close> embeds
  the \<^verbatim>\<open>*http.Response\<close>, of which the program reads the status code.
\<close>

record Timestamp =
  Start :: int64
  End :: int64

record Response =
  StatusCode :: int
  Timestamp :: Timestamp

text \<open>\<^verbatim>\<open>Query\<close>: one row of the input file. \<open>Start\<close> and \<open>End\<close> are Unix milliseconds.\<close>

record Query =
  Query :: string
  Start :: int64
  End :: int64
  Step :: int

text \<open>The errors the program builds with \<^verbatim>\<open>fmt.Errorf\<close>, by their format and arguments.\<close>

datatype error =
    SendingRequest string
  | UnexpectedStatus int
  | QueryError Query error
  | RequiredInputFile
  | ParseError string

record Stats =
  Average :: float64
  Errors :: "error list"
  Fastest :: int64
  Median :: float64
  Processed :: int
  Slowest :: int64
  Total :: int64

section \<open>The statistics aggregator\<close>

text \<open>A slice read \<^verbatim>\<open>xs[i]\<close>, with Go's bounds check.\<close>

definition index :: "'a list \<Rightarrow> int \<Rightarrow> failure + 'a" where
  "index xs i =
     (if 0 \<le> i \<and> i < int (length xs) then Inr (xs ! nat i)
      else Inl (IndexOutOfRange i (int (length xs))))"

text \<open>\<^verbatim>\<open>timeDiff := queryList[i].End - queryList[i].Start\<close>, a wrapping subtraction.\<close>

definition timeDiff :: "Query \<Rightarrow> int64" where
  "timeDiff q = End q - Start q"

text \<open>
  The loop of \<^verbatim>\<open>getQueriesStats\<close> over the state \<open>(fastest, slowest, average, timeDiffs)\<close>.
\<close>

fun stats_loop ::
  "Query list \<Rightarrow> int64 \<times> int64 \<times> float64 \<times> int64 list \<Rightarrow> int64 \<times> int64 \<times> float64 \<times> int64 list"
where
  "stats_loop [] acc = acc"
| "stats_loop (q # qs) (fastest, slowest, average, timeDiffs) =
     stats_loop qs
       (if timeDiff q <s fastest then timeDiff q else fastest,
        if slowest <s timeDiff q then timeDiff q else slowest,
        f64_add average (f64_of_int64 (timeDiff q)),
        timeDiffs @ [timeDiff q])"

text \<open>
  The median of the sorted differences. \<^verbatim>\<open>sort.Slice\<close> with the order \<open><\<close> on \<^verbatim>\<open>int64\<close>
  leaves the one ascending arrangement of the values, which is \<open>sort_key sint\<close>.
\<close>

definition median_of :: "int64 list \<Rightarrow> failure + float64" where
  "median_of timeDiffs =
     (let sorted = sort_key sint timeDiffs;
          mNumber = int (length sorted) div 2
      in if int (length sorted) mod 2 \<noteq> 0 then
           (case index sorted mNumber of
              Inl f \<Rightarrow> Inl f
            | Inr m \<Rightarrow> Inr (f64_of_int64 m))
         else
           (case index sorted (mNumber - 1) of
              Inl f \<Rightarrow> Inl f
            | Inr a \<Rightarrow>
                (case index sorted mNumber of
                   Inl f \<Rightarrow> Inl f
                 | Inr b \<Rightarrow> Inr (f64_div (f64_of_int64 (a + b)) 2))))"

definition getQueriesStats :: "Query list \<Rightarrow> failure + Stats" where
  "getQueriesStats queryList =
     (case stats_loop queryList (MaxInt64, 0, 0, []) of
        (fastest, slowest, average, timeDiffs) \<Rightarrow>
          (case median_of timeDiffs of
             Inl f \<Rightarrow> Inl f
           | Inr median \<Rightarrow>
               Inr \<lparr>Average = f64_div average (f64_of_int (int (length queryList))),
                    Errors = [],
                    Fastest = fastest,
                    Median = median,
                    Processed = 0,
                    Slowest = slowest,
                    Total = 0\<rparr>))"

section \<open>Reading the aggregator's results\<close>

text \<open>The elapsed time of a query, as the signed number the aggregator compares.\<close>

definition elapsed :: "Query \<Rightarrow> int" where
  "elapsed q = sint (timeDiff q)"

text \<open>
  The median as the specification words it, over exact numbers: sort ascending; the
  middle element when the count is odd, the arithmetic mean of the two middle elements
  when it is even.
\<close>

definition spec_median :: "int list \<Rightarrow> rat" where
  "spec_median xs =
     (let s = sort xs; n = length s
      in if odd n then of_int (s ! (n div 2))
         else (of_int (s ! (n div 2 - 1)) + of_int (s ! (n div 2))) / 2)"

section \<open>The HTTP client\<close>

record URL =
  Scheme :: string
  Host :: string
  Path :: string
  RawQuery :: string

text \<open>
  The \<^verbatim>\<open>HttpClient\<close> interface has the one method \<^verbatim>\<open>Get(url)\<close>. An implementation is the
  function from the requested URL to what the round trip does: the milliseconds it takes,
  and the transport error or the status code of the response.
\<close>

type_synonym HttpClient = "string \<Rightarrow> int64 \<times> (string + int)"

record Client =
  Client :: HttpClient
  URL :: URL
  Version :: string

text \<open>
  \<^verbatim>\<open>schemeRegex\<close> is \<^verbatim>\<open>^((http[s]?|ftp):\/)\/\<close>: anchored at the start of the text, it
  matches exactly one of the three prefixes below, and \<^verbatim>\<open>FindString\<close> returns the prefix.
\<close>

definition getScheme :: "string \<Rightarrow> string option" where
  "getScheme text =
     (if prefix ''https://'' text then Some ''https://''
      else if prefix ''http://'' text then Some ''http://''
      else if prefix ''ftp://'' text then Some ''ftp://''
      else None)"

text \<open>
  \<^verbatim>\<open>strings.TrimLeft(s, cutset)\<close> and \<^verbatim>\<open>strings.TrimRight(s, cutset)\<close> remove the leading
  (trailing) characters of \<open>s\<close> that occur in \<open>cutset\<close>, a set of characters and not a
  prefix. The cutsets of this program are ASCII, for which Go compares byte by byte.
\<close>

definition TrimLeft :: "string \<Rightarrow> string \<Rightarrow> string" where
  "TrimLeft s cutset = dropWhile (\<lambda>c. c \<in> set cutset) s"

definition TrimRight :: "string \<Rightarrow> string \<Rightarrow> string" where
  "TrimRight s cutset = rev (dropWhile (\<lambda>c. c \<in> set cutset) (rev s))"

text \<open>
  \<^verbatim>\<open>newHTTPClient\<close>. The \<^verbatim>\<open>http.Client\<close> with its one-second timeout is the network, the
  parameter \<open>net\<close>.
\<close>

definition newHTTPClient :: "HttpClient \<Rightarrow> string \<Rightarrow> Client" where
  "newHTTPClient net host =
     (case getScheme host of
        Some s \<Rightarrow>
          \<lparr>Client = net,
           URL = \<lparr>Scheme = TrimRight s ''://'', Host = TrimLeft host s, Path = '''', RawQuery = ''''\<rparr>,
           Version = ''v1''\<rparr>
      | None \<Rightarrow>
          \<lparr>Client = net,
           URL = \<lparr>Scheme = ''https'', Host = host, Path = '''', RawQuery = ''''\<rparr>,
           Version = ''v1''\<rparr>)"

text \<open>
  The library functions \<^verbatim>\<open>getHTTPQuery\<close> formats with, as parameters:
  \<open>format_rfc3339 ns\<close> is \<^verbatim>\<open>time.Unix(0, ns).Format(time.RFC3339)\<close> in the local time zone,
  \<open>sprintf_d\<close> is \<^verbatim>\<open>fmt.Sprintf("%d", _)\<close>, \<open>values_encode\<close> is \<^verbatim>\<open>Encode()\<close> of the
  \<^verbatim>\<open>url.Values\<close> built by the given calls of \<^verbatim>\<open>Add\<close>, and \<open>url_string\<close> is \<^verbatim>\<open>URL.String()\<close>.
\<close>

record stdlib =
  format_rfc3339 :: "int64 \<Rightarrow> string"
  sprintf_d :: "int \<Rightarrow> string"
  values_encode :: "(string \<times> string) list \<Rightarrow> string"
  url_string :: "URL \<Rightarrow> string"

text \<open>
  The world outside the process: the clock \<^verbatim>\<open>time.Now()\<close> reads, in Unix milliseconds,
  and the outbound network calls made so far, by their URLs.
\<close>

record world =
  now :: int64
  requests :: "string list"

text \<open>
  \<^verbatim>\<open>getHTTPQuery\<close>. The receiver is a pointer and so is its \<^verbatim>\<open>URL\<close>: the two assignments
  to \<^verbatim>\<open>c.URL.Path\<close> and \<^verbatim>\<open>c.URL.RawQuery\<close> change the client every caller shares, which
  is returned with the result and the world after the call.
\<close>

definition getHTTPQuery ::
  "stdlib \<Rightarrow> Client \<Rightarrow> Query \<Rightarrow> world \<Rightarrow> (error + Response) \<times> Client \<times> world"
where
  "getHTTPQuery lib c q w =
     (let params = [(''query'', Query q),
                    (''start'', format_rfc3339 lib (Query.Start q * 1000000)),
                    (''end'', format_rfc3339 lib (Query.End q * 1000000)),
                    (''step'', sprintf_d lib (Step q))];
          c' = c\<lparr>URL := (Client.URL c)\<lparr>Path := ''/api/'' @ Version c @ ''/query_range'',
                                        RawQuery := values_encode lib params\<rparr>\<rparr>;
          start = now w;
          sent = url_string lib (Client.URL c');
          w' = w\<lparr>now := now w + fst (Client c' sent), requests := requests w @ [sent]\<rparr>;
          end = now w'
      in (case snd (Client c' sent) of
            Inl err \<Rightarrow> Inl (SendingRequest err)
          | Inr code \<Rightarrow>
              if code \<noteq> 200 then Inl (UnexpectedStatus code)
              else Inr \<lparr>StatusCode = code, Timestamp = \<lparr>Timestamp.Start = start, Timestamp.End = end\<rparr>\<rparr>,
          c', w'))"

section \<open>The dispatcher\<close>

text \<open>
  The body of one goroutine of \<^verbatim>\<open>benchmark\<close>, on the state
  \<open>(c, w, errorList, queryList)\<close>. After an error \<^verbatim>\<open>resp\<close> is \<^verbatim>\<open>nil\<close>, and the next
  statement reads \<^verbatim>\<open>resp.StatusCode\<close>: the goroutine panics, which ends the process.
  After a success the status code is 200, so the log line for a code above 200 is never
  written.
\<close>

definition worker ::
  "stdlib \<Rightarrow> Query \<Rightarrow> Client \<times> world \<times> error list \<times> Query list
     \<Rightarrow> failure + Client \<times> world \<times> error list \<times> Query list"
where
  "worker lib q st =
     (case st of (c, w, errorList, queryList) \<Rightarrow>
        (case getHTTPQuery lib c q w of
           (Inl err, c', w') \<Rightarrow>
             (let errorList' = errorList @ [QueryError q err]
              in Inl NilPointerDereference)
         | (Inr resp, c', w') \<Rightarrow>
             Inr (c', w', errorList,
                  queryList @ [q\<lparr>Start := Timestamp.Start (Timestamp resp),
                                  End := Timestamp.End (Timestamp resp)\<rparr>])))"

text \<open>
  The goroutines, run one after the other in the order of submission, the process ending
  with the first panic: one schedule of the concurrent program. The runtime ends the
  process some time after the deferred function of the panicking goroutine; what the other
  goroutines and \<^verbatim>\<open>main\<close> still do in that time is not part of this schedule.
\<close>

fun run_workers ::
  "stdlib \<Rightarrow> Query list \<Rightarrow> Client \<times> world \<times> error list \<times> Query list
     \<Rightarrow> failure + Client \<times> world \<times> error list \<times> Query list"
where
  "run_workers lib [] st = Inr st"
| "run_workers lib (q # qs) st =
     (case worker lib q st of
        Inl f \<Rightarrow> Inl f
      | Inr st' \<Rightarrow> run_workers lib qs st')"

text \<open>
  \<^verbatim>\<open>benchmark\<close>. \<^verbatim>\<open>make(chan struct{}, n)\<close> panics for a negative \<open>n\<close>. With \<open>n = 0\<close> the
  channel is unbuffered: every goroutine blocks in its send, since the only receive is
  the deferred one after it, and \<^verbatim>\<open>wg.Wait()\<close> never returns; the runtime reports the
  deadlock where it detects one, and the process hangs where it does not.
\<close>

definition benchmark :: "stdlib \<Rightarrow> Client \<Rightarrow> Query list \<Rightarrow> int \<Rightarrow> world \<Rightarrow> failure + Stats" where
  "benchmark lib c queries maxConcurrentWorkers w =
     (if maxConcurrentWorkers < 0 then Inl MakeChanSizeOutOfRange
      else if maxConcurrentWorkers = 0 \<and> queries \<noteq> [] then Inl NeverReturns
      else
        (case run_workers lib queries (c, w, [], []) of
           Inl f \<Rightarrow> Inl f
         | Inr (c', w', errorList, queryList) \<Rightarrow>
             (case getQueriesStats queryList of
                Inl f \<Rightarrow> Inl f
              | Inr stats \<Rightarrow>
                  Inr (stats\<lparr>Processed := int (length queries) - int (length errorList),
                             Total := now w' - now w,
                             Errors := errorList\<rparr>))))"

section \<open>Start-up: flags and the input file\<close>

text \<open>
  \<^verbatim>\<open>strconv.ParseInt(s, 10, 64)\<close>: an optional sign, then one or more decimal digits, and
  the value must fit \<^verbatim>\<open>int64\<close>. \<^verbatim>\<open>strconv.Atoi\<close> accepts the same strings.
\<close>

fun digits_value :: "string \<Rightarrow> nat \<Rightarrow> nat option" where
  "digits_value [] n = Some n"
| "digits_value (c # cs) n =
     (if (of_char CHR ''0'' :: nat) \<le> of_char c \<and> (of_char c :: nat) \<le> of_char CHR ''9''
      then digits_value cs (n * 10 + (of_char c - of_char CHR ''0''))
      else None)"

definition ParseInt :: "string \<Rightarrow> error + int64" where
  "ParseInt s =
     (if s = [] then Inl (ParseError s)
      else
        (let neg = (hd s = CHR ''-'');
             body = (if hd s = CHR ''+'' \<or> hd s = CHR ''-'' then tl s else s)
         in if body = [] then Inl (ParseError s)
            else
              (case digits_value body 0 of
                 None \<Rightarrow> Inl (ParseError s)
               | Some un \<Rightarrow>
                   if \<not> neg \<and> 2 ^ 63 \<le> un then Inl (ParseError s)
                   else if neg \<and> 2 ^ 63 < un then Inl (ParseError s)
                   else Inr (if neg then - of_nat un else of_nat un))))"

definition Atoi :: "string \<Rightarrow> error + int" where
  "Atoi s = (case ParseInt s of Inl e \<Rightarrow> Inl e | Inr i \<Rightarrow> Inr (sint i))"

text \<open>The loop of \<^verbatim>\<open>readFile\<close> over the records, with its three early returns.\<close>

fun read_records :: "string list list \<Rightarrow> failure + (error + Query list)" where
  "read_records [] = Inr (Inr [])"
| "read_records (line # rest) =
     (case index line 1 of Inl f \<Rightarrow> Inl f | Inr f1 \<Rightarrow>
      (case ParseInt f1 of Inl err \<Rightarrow> Inr (Inl err) | Inr start \<Rightarrow>
       (case index line 2 of Inl f \<Rightarrow> Inl f | Inr f2 \<Rightarrow>
        (case ParseInt f2 of Inl err \<Rightarrow> Inr (Inl err) | Inr end \<Rightarrow>
         (case index line 3 of Inl f \<Rightarrow> Inl f | Inr f3 \<Rightarrow>
          (case Atoi f3 of Inl err \<Rightarrow> Inr (Inl err) | Inr step \<Rightarrow>
           (case index line 0 of Inl f \<Rightarrow> Inl f | Inr f0 \<Rightarrow>
            (case read_records rest of
               Inl f \<Rightarrow> Inl f
             | Inr (Inl err) \<Rightarrow> Inr (Inl err)
             | Inr (Inr queries) \<Rightarrow>
                 Inr (Inr (\<lparr>Query = f0, Start = start, End = end, Step = step\<rparr> # queries))))))))))"

text \<open>
  \<^verbatim>\<open>readFile\<close>. The file is what \<^verbatim>\<open>csvReader.ReadAll()\<close> makes of it: an error, on which
  \<^verbatim>\<open>log.Fatalf\<close> exits with code 1, or the records. The result is the pair the Go
  function returns: the error with a \<^verbatim>\<open>nil\<close> list, or the queries.
\<close>

definition readFile :: "string + string list list \<Rightarrow> failure + (error + Query list)" where
  "readFile file =
     (case file of
        Inl csv_err \<Rightarrow> Inl (Exit 1)
      | Inr csvRecords \<Rightarrow> read_records csvRecords)"

record Config =
  Filepath :: string
  Workers :: int
  URL :: string

text \<open>
  \<^verbatim>\<open>parseFlags\<close>. \<open>parsed\<close> is what \<^verbatim>\<open>benchmarkCommand.Parse(os.Args[2:])\<close> does under
  \<^verbatim>\<open>flag.ExitOnError\<close>: it exits with a code, or leaves the values of the flags
  \<^verbatim>\<open>filepath\<close>, \<^verbatim>\<open>workers\<close> and \<^verbatim>\<open>promscale.url\<close>, the defaults where a flag is absent.
\<close>

definition parseFlags ::
  "string list \<Rightarrow> int + string \<times> int \<times> string \<Rightarrow> failure + (error + Config)"
where
  "parseFlags args parsed =
     (case index args 1 of
        Inl f \<Rightarrow> Inl f
      | Inr sub \<Rightarrow>
          if sub = ''benchmark'' then
            (case parsed of
               Inl code \<Rightarrow> Inl (Exit code)
             | Inr (filepath, workers, url) \<Rightarrow>
                 if filepath = '''' then Inr (Inl RequiredInputFile)
                 else Inr (Inr \<lparr>Filepath = filepath, Workers = workers, URL = url\<rparr>))
          else Inl (Exit 1))"

text \<open>
  \<^verbatim>\<open>main\<close> up to its call of \<^verbatim>\<open>benchmark\<close>: the arguments of that call, or the failure that
  stops the process before it. \<open>open_file\<close> is \<^verbatim>\<open>os.Open\<close>: \<open>None\<close> when the file cannot be
  opened. An error of \<^verbatim>\<open>readFile\<close> is logged with \<^verbatim>\<open>log.Print\<close> and \<^verbatim>\<open>main\<close> goes on, with
  the \<^verbatim>\<open>nil\<close> list \<^verbatim>\<open>readFile\<close> returned.
\<close>

definition main_until_benchmark ::
  "string list \<Rightarrow> int + string \<times> int \<times> string \<Rightarrow> (string \<Rightarrow> (string + string list list) option)
     \<Rightarrow> HttpClient \<Rightarrow> failure + Client \<times> Query list \<times> int"
where
  "main_until_benchmark args parsed open_file net =
     (if length args < 2 then Inl (Exit 1)
      else
        (case parseFlags args parsed of
           Inl f \<Rightarrow> Inl f
         | Inr (Inl err) \<Rightarrow> Inl (Exit 1)
         | Inr (Inr cfg) \<Rightarrow>
             (case open_file (Filepath cfg) of
                None \<Rightarrow> Inl (Exit 1)
              | Some file \<Rightarrow>
                  (case readFile file of
                     Inl f \<Rightarrow> Inl f
                   | Inr (Inl err) \<Rightarrow>
                       Inr (newHTTPClient net (Config.URL cfg), [], Workers cfg)
                   | Inr (Inr queries) \<Rightarrow>
                       Inr (newHTTPClient net (Config.URL cfg), queries, Workers cfg)))))"

definition main ::
  "stdlib \<Rightarrow> string list \<Rightarrow> int + string \<times> int \<times> string
     \<Rightarrow> (string \<Rightarrow> (string + string list list) option) \<Rightarrow> HttpClient \<Rightarrow> world \<Rightarrow> failure + Stats"
where
  "main lib args parsed open_file net w =
     (case main_until_benchmark args parsed open_file net of
        Inl f \<Rightarrow> Inl f
      | Inr (cli, queries, workers) \<Rightarrow> benchmark lib cli queries workers w)"

section \<open>The permit pool of the dispatcher\<close>

text \<open>
  The goroutines of \<^verbatim>\<open>benchmark\<close> as interleaved steps. Each goroutine is at one of four
  places: \<open>Spawned\<close>, before its send \<^verbatim>\<open>workers <- struct{}{}\<close>; \<open>Holding\<close>, after the send,
  in the call of \<^verbatim>\<open>getHTTPQuery\<close> and the rest of its body; \<open>Released\<close>, after the
  deferred receive \<^verbatim>\<open><-workers\<close>; \<open>Finished\<close>, after the deferred \<^verbatim>\<open>wg.Add(-1)\<close>.
  The state holds the number of values in the buffered channel \<^verbatim>\<open>workers\<close>, the place of
  every goroutine, the counter of the wait group, whether a panic has run its deferred
  function and the runtime is about to end the process (\<open>dying\<close>), and whether the
  process has ended (\<open>exited\<close>).
\<close>

datatype pc = Spawned | Holding | Released | Finished

record pool =
  permits :: nat
  pcs :: "pc list"
  wg :: int
  dying :: bool
  exited :: bool

definition init :: "nat \<Rightarrow> pool" where
  "init n = \<lparr>permits = 0, pcs = replicate n Spawned, wg = int n, dying = False, exited = False\<rparr>"

text \<open>
  \<open>step cap fails\<close>: one step of the program, for a channel of capacity \<open>cap\<close>. A send
  needs room in the buffer and a receive needs a value in it. The deferred function runs
  when the body returns and when it panics, so the steps \<open>release\<close> and \<open>complete\<close> are
  the same for a goroutine whose query succeeded and for one whose query failed
  (\<open>fails i\<close>). Once a failed goroutine has run its deferred function the process is
  dying; every goroutine goes on until the runtime ends the process, in the step \<open>runtime_exit\<close>.
\<close>

inductive step :: "nat \<Rightarrow> (nat \<Rightarrow> bool) \<Rightarrow> pool \<Rightarrow> pool \<Rightarrow> bool" for cap fails where
  acquire:
    "\<not> exited s \<Longrightarrow> i < length (pcs s) \<Longrightarrow> pcs s ! i = Spawned \<Longrightarrow> permits s < cap \<Longrightarrow>
       step cap fails s (s\<lparr>permits := permits s + 1, pcs := (pcs s)[i := Holding]\<rparr>)"
| release:
    "\<not> exited s \<Longrightarrow> i < length (pcs s) \<Longrightarrow> pcs s ! i = Holding \<Longrightarrow> 0 < permits s \<Longrightarrow>
       step cap fails s (s\<lparr>permits := permits s - 1, pcs := (pcs s)[i := Released]\<rparr>)"
| complete:
    "\<not> exited s \<Longrightarrow> i < length (pcs s) \<Longrightarrow> pcs s ! i = Released \<Longrightarrow>
       step cap fails s
         (s\<lparr>wg := wg s - 1, pcs := (pcs s)[i := Finished], dying := (dying s \<or> fails i)\<rparr>)"
| runtime_exit:
    "\<not> exited s \<Longrightarrow> dying s \<Longrightarrow> step cap fails s (s\<lparr>exited := True\<rparr>)"

text \<open>The calls of \<^verbatim>\<open>getHTTPQuery\<close> in flight: the goroutines between their send and their receive.\<close>

definition in_flight :: "pool \<Rightarrow> nat" where
  "in_flight s = length (filter (\<lambda>p. p = Holding) (pcs s))"

text \<open>The units of work not yet counted as complete by the wait group.\<close>

definition unfinished :: "pool \<Rightarrow> nat" where
  "unfinished s = length (filter (\<lambda>p. p \<noteq> Finished) (pcs s))"

text \<open>
  Whether the call for a query fails, as \<^verbatim>\<open>getHTTPQuery\<close> decides it: by what the client
  answers to the URL built from the query.
\<close>

definition query_fails :: "stdlib \<Rightarrow> Client \<Rightarrow> Query \<Rightarrow> bool" where
  "query_fails lib c q = isl (fst (getHTTPQuery lib c q \<lparr>now = 0, requests = []\<rparr>))"

section \<open>Rounding to float64\<close>


lemma round_half_even_of_int: "round_half_even (of_int z) = z"
  by (simp add: round_half_even_def)

lemma round_half_even_ge: "of_int m \<le> q \<Longrightarrow> m \<le> round_half_even q"
proof -
  assume "of_int m \<le> q"
  then have "m \<le> \<lfloor>q\<rfloor>" by (simp add: le_floor_iff)
  then show ?thesis by (simp add: round_half_even_def)
qed

lemma round_half_even_le: "q \<le> of_int m \<Longrightarrow> round_half_even q \<le> m"
proof -
  assume h: "q \<le> of_int m"
  have f: "\<lfloor>q\<rfloor> \<le> m" using h by (simp add: floor_le_iff) 
  show ?thesis
  proof (cases "q = of_int \<lfloor>q\<rfloor>")
    case True
    then have "q - of_int \<lfloor>q\<rfloor> < 1 / 2" by simp
    then show ?thesis using f by (simp add: round_half_even_def)
  next
    case False
    moreover have "of_int \<lfloor>q\<rfloor> \<le> q" by simp
    ultimately have "of_int \<lfloor>q\<rfloor> < q" by linarith
    then have "of_int \<lfloor>q\<rfloor> < (of_int m :: rat)" using h by simp
    then have "\<lfloor>q\<rfloor> < m" by simp
    then show ?thesis by (simp add: round_half_even_def)
  qed
qed

lemma binade_lower: assumes "x \<noteq> 0" shows "power_int 2 (binade x) \<le> \<bar>x\<bar>"
proof (cases "1 \<le> \<bar>x\<bar>")
  case True
  define m where "m = \<lfloor>\<bar>x\<bar>\<rfloor>"
  have m1: "1 \<le> m" using True by (simp add: m_def le_floor_iff)
  then have b: "2 ^ nat (bitlen m - 1) \<le> m" using bitlen_bounds[of m] by simp
  have bl: "1 \<le> bitlen m" using m1 bitlen_eq_zero_iff[of m] bitlen_nonneg[of m] by linarith
  have "(of_int (2 ^ nat (bitlen m - 1)) :: rat) \<le> of_int m" using b by (simp only: of_int_le_iff)
  also have "\<dots> \<le> \<bar>x\<bar>" by (simp add: m_def)
  finally have "(2::rat) ^ nat (bitlen m - 1) \<le> \<bar>x\<bar>" by simp
  moreover have "power_int (2::rat) (bitlen m - 1) = 2 ^ nat (bitlen m - 1)"
    using bl by (simp add: power_int_def)
  ultimately show ?thesis using True by (simp add: binade_def m_def)
next
  case False
  then have lt: "\<bar>x\<bar> < 1" by simp
  have pos: "0 < \<bar>x\<bar>" using assms by simp
  define c where "c = \<lceil>1 / \<bar>x\<bar>\<rceil>"
  have "1 < 1 / \<bar>x\<bar>" using lt pos by simp
  then have c2: "2 \<le> c" unfolding c_def by (smt (verit) ceiling_le_one le_less_trans not_less)
  then have b: "c - 1 < 2 ^ nat (bitlen (c - 1))" using bitlen_bounds[of "c - 1"] by simp
  then have "c \<le> 2 ^ nat (bitlen (c - 1))" by simp
  then have "(of_int c :: rat) \<le> of_int (2 ^ nat (bitlen (c - 1)))" by (simp only: of_int_le_iff)
  then have "(of_int c :: rat) \<le> 2 ^ nat (bitlen (c - 1))" by simp
  moreover have "1 / \<bar>x\<bar> \<le> of_int c" by (simp add: c_def)
  ultimately have "1 / \<bar>x\<bar> \<le> 2 ^ nat (bitlen (c - 1))" by (rule order_trans[rotated])
  then have "1 \<le> 2 ^ nat (bitlen (c - 1)) * \<bar>x\<bar>" using pos by (simp add: field_simps)
  then have "1 / 2 ^ nat (bitlen (c - 1)) \<le> \<bar>x\<bar>" by (simp add: field_simps)
  moreover have "power_int (2::rat) (- bitlen (c - 1)) = 1 / 2 ^ nat (bitlen (c - 1))"
    using bitlen_nonneg[of "c - 1"] by (simp add: power_int_def field_simps)
  ultimately show ?thesis using False by (simp add: binade_def c_def)
qed

lemma binade_upper: assumes "x \<noteq> 0" shows "\<bar>x\<bar> < power_int 2 (binade x + 1)"
proof (cases "1 \<le> \<bar>x\<bar>")
  case True
  define m where "m = \<lfloor>\<bar>x\<bar>\<rfloor>"
  have m1: "1 \<le> m" using True by (simp add: m_def le_floor_iff)
  then have b: "m < 2 ^ nat (bitlen m)" using bitlen_bounds[of m] by simp
  then have "m + 1 \<le> 2 ^ nat (bitlen m)" by simp
  then have "(of_int (m + 1) :: rat) \<le> of_int (2 ^ nat (bitlen m))" by (simp only: of_int_le_iff)
  moreover have "\<bar>x\<bar> < of_int (m + 1)" unfolding m_def by linarith
  ultimately have "\<bar>x\<bar> < 2 ^ nat (bitlen m)" by simp
  moreover have "power_int (2::rat) (bitlen m) = 2 ^ nat (bitlen m)"
    using bitlen_nonneg[of m] by (simp add: power_int_def)
  ultimately show ?thesis using True by (simp add: binade_def m_def)
next
  case False
  then have lt: "\<bar>x\<bar> < 1" by simp
  have pos: "0 < \<bar>x\<bar>" using assms by simp
  define c where "c = \<lceil>1 / \<bar>x\<bar>\<rceil>"
  have "1 < 1 / \<bar>x\<bar>" using lt pos by simp
  then have c2: "2 \<le> c" unfolding c_def by (smt (verit) ceiling_le_one le_less_trans not_less)
  then have b: "2 ^ nat (bitlen (c - 1) - 1) \<le> c - 1" using bitlen_bounds[of "c - 1"] by simp
  have bl: "1 \<le> bitlen (c - 1)" using c2 bitlen_eq_zero_iff[of "c - 1"] bitlen_nonneg[of "c - 1"] by linarith
  have "(of_int (2 ^ nat (bitlen (c - 1) - 1)) :: rat) \<le> of_int (c - 1)" using b by (simp only: of_int_le_iff)
  moreover have "of_int (c - 1) < 1 / \<bar>x\<bar>" unfolding c_def by linarith
  ultimately have "2 ^ nat (bitlen (c - 1) - 1) < 1 / \<bar>x\<bar>" by simp
  then have "2 ^ nat (bitlen (c - 1) - 1) * \<bar>x\<bar> < 1" using pos by (simp add: field_simps)
  then have "\<bar>x\<bar> < 1 / 2 ^ nat (bitlen (c - 1) - 1)" by (simp add: field_simps)
  moreover have "power_int (2::rat) (- bitlen (c - 1) + 1) = 1 / 2 ^ nat (bitlen (c - 1) - 1)"
    using bl by (simp add: power_int_def field_simps)
  ultimately show ?thesis using False by (simp add: binade_def c_def)
qed


lemma round_f64_dyadic:
  assumes "\<bar>m\<bar> \<le> 2 ^ 53"
  shows "round_f64 (of_int m * power_int 2 e) = of_int m * power_int 2 e"
proof (cases "m = 0")
  case True
  then show ?thesis by (simp add: round_f64_def)
next
  case False
  define x :: rat where "x = of_int m * power_int 2 e"
  have x0: "x \<noteq> 0" using False by (simp add: x_def)
  define b where "b = binade x"
  define u :: rat where "u = power_int 2 (b - 52)"
  have u0: "0 < u" by (simp add: u_def zero_less_power_int)
  have absx: "\<bar>x\<bar> = of_int \<bar>m\<bar> * power_int 2 e"
    by (simp add: x_def abs_mult power_int_abs)
  have low: "power_int 2 b \<le> of_int \<bar>m\<bar> * (power_int 2 e :: rat)"
    using binade_lower[OF x0] by (simp only: b_def absx)
  have "(of_int \<bar>m\<bar> :: rat) \<le> of_int (2 ^ 53)" using assms by (simp only: of_int_le_iff)
  then have "(of_int \<bar>m\<bar> :: rat) * power_int 2 e \<le> 2 ^ 53 * power_int 2 e"
    by (intro mult_right_mono) (simp_all add: zero_le_power_int)
  also have "\<dots> = power_int 2 (53 + e)" by (simp add: power_int_add)
  finally have le: "power_int (2::rat) b \<le> power_int 2 (53 + e)" using low by simp
  have ble: "b \<le> 53 + e"
  proof (rule ccontr)
    assume "\<not> b \<le> 53 + e"
    then have "53 + e < b" by simp
    from power_int_strict_increasing[OF this, of "2::rat"] le show False by simp
  qed
  have xu: "x / u = of_int m * power_int 2 (52 + e - b)"
  proof -
    have "power_int (2::rat) (52 + e - b) = power_int 2 e / power_int 2 (b - 52)"
      using power_int_diff[of "2::rat" e "b - 52"] by (simp add: algebra_simps)
    then show ?thesis by (simp add: x_def u_def)
  qed
  have "\<exists>z. x / u = of_int z"
  proof (cases "b = 53 + e")
    case True
    have "2 ^ 53 * power_int (2::rat) e \<le> of_int \<bar>m\<bar> * power_int 2 e"
      using low True by (simp add: power_int_add)
    then have "(2::rat) ^ 53 \<le> of_int \<bar>m\<bar>"
      by (simp add: zero_less_power_int)
    then have "(of_int (2 ^ 53) :: rat) \<le> of_int \<bar>m\<bar>" by simp
    then have "2 ^ 53 \<le> \<bar>m\<bar>" by (simp only: of_int_le_iff)
    with assms have "\<bar>m\<bar> = 2 ^ 53" by simp
    then have "m = 2 ^ 53 \<or> m = - (2 ^ 53)" by linarith
    moreover have "x / u = of_int m / 2" using xu True by (simp add: power_int_minus_divide)
    ultimately consider "x / u = of_int (2 ^ 53) / 2" | "x / u = of_int (- (2 ^ 53)) / 2"
      by metis
    then show ?thesis
    proof cases
      case 1
      then have "x / u = of_int (2 ^ 52)" by simp
      then show ?thesis by blast
    next
      case 2
      then have "x / u = of_int (- (2 ^ 52))" by simp
      then show ?thesis by blast
    qed
  next
    case False
    with ble have "0 \<le> 52 + e - b" by simp
    then have "power_int (2::rat) (52 + e - b) = 2 ^ nat (52 + e - b)"
      by (simp add: power_int_def)
    then have "x / u = of_int (m * 2 ^ nat (52 + e - b))" using xu by simp
    then show ?thesis by blast
  qed
  then obtain z where z: "x / u = of_int z" ..
  have "round_f64 x = of_int (round_half_even (x / u)) * u"
    using x0 by (simp add: round_f64_def u_def b_def)
  also have "\<dots> = of_int z * u" by (simp add: z round_half_even_of_int)
  also have "\<dots> = x" using z u0 by (simp add: field_simps)
  finally show ?thesis by (simp add: x_def)
qed

lemma round_f64_of_int:
  "\<bar>m\<bar> \<le> 2 ^ 53 \<Longrightarrow> round_f64 (of_int m) = of_int m"
  using round_f64_dyadic[of m 0] by simp

lemma round_f64_half:
  "\<bar>m\<bar> \<le> 2 ^ 53 \<Longrightarrow> round_f64 (of_int m / 2) = of_int m / 2"
  using round_f64_dyadic[of m "-1"] by (simp add: power_int_minus_divide)

lemma round_f64_between:
  assumes ax: "of_int a \<le> x" and xb: "x \<le> of_int b"
    and a: "\<bar>a\<bar> \<le> 2 ^ 53" and b: "\<bar>b\<bar> \<le> 2 ^ 53"
  shows "of_int a \<le> round_f64 x \<and> round_f64 x \<le> of_int b"
proof (cases "x = 0")
  case True
  then show ?thesis using ax xb by (simp add: round_f64_def)
next
  case x0: False
  have "- (2 ^ 53) \<le> a" using a by simp
  then have "(of_int (- (2 ^ 53)) :: rat) \<le> of_int a" by (simp only: of_int_le_iff)
  then have lo: "- (2 ^ 53) \<le> x" using ax by simp
  have "b \<le> 2 ^ 53" using b by simp
  then have "(of_int b :: rat) \<le> of_int (2 ^ 53)" by (simp only: of_int_le_iff)
  then have hi: "x \<le> 2 ^ 53" using xb by simp
  show ?thesis
  proof (cases "\<bar>x\<bar> < 2 ^ 53")
    case False
    then have "x = of_int (2 ^ 53) \<or> x = of_int (- (2 ^ 53))" using lo hi by auto
    then have "round_f64 x = x" using round_f64_of_int[of "2 ^ 53"] round_f64_of_int[of "- (2 ^ 53)"]
      by auto
    then show ?thesis using ax xb by simp
  next
    case True
    define e where "e = binade x"
    have "power_int (2::rat) e \<le> \<bar>x\<bar>" using binade_lower[OF x0] by (simp add: e_def)
    then have "power_int (2::rat) e < power_int 2 53" using True by simp
    then have "e < 53" by (rule power_int_le_imp_less_exp[rotated]) simp_all
    then have k: "0 \<le> 52 - e" by simp
    define K :: int where "K = 2 ^ nat (52 - e)"
    have K0: "0 < K" by (simp add: K_def)
    have u: "power_int (2::rat) (e - 52) = 1 / of_int K"
    proof -
      have "power_int (2::rat) (e - 52) = 1 / power_int 2 (52 - e)"
        using power_int_minus_divide[of "2::rat" "52 - e"] by simp
      also have "power_int (2::rat) (52 - e) = 2 ^ nat (52 - e)" using k by (simp add: power_int_def)
      finally show ?thesis by (simp add: K_def)
    qed
    define r where "r = round_half_even (x * of_int K)"
    have rx: "round_f64 x = of_int r / of_int K"
    proof -
      have "round_f64 x = of_int (round_half_even (x / power_int 2 (e - 52))) * power_int 2 (e - 52)"
        using x0 by (simp add: round_f64_def e_def)
      then show ?thesis by (simp add: u r_def)
    qed
    have "of_int (a * K) \<le> x * of_int K" using ax K0 by (simp add: mult_right_mono)
    then have "a * K \<le> r" unfolding r_def by (rule round_half_even_ge)
    then have "(of_int (a * K) :: rat) \<le> of_int r" by (simp only: of_int_le_iff)
    then have 1: "of_int a \<le> round_f64 x" using K0 by (simp add: rx field_simps)
    have "x * of_int K \<le> of_int (b * K)" using xb K0 by (simp add: mult_right_mono)
    then have "r \<le> b * K" unfolding r_def by (rule round_half_even_le)
    then have "(of_int r :: rat) \<le> of_int (b * K)" by (simp only: of_int_le_iff)
    then have 2: "round_f64 x \<le> of_int b" using K0 by (simp add: rx field_simps)
    show ?thesis using 1 2 by simp
  qed
qed

section \<open>Properties of the aggregator\<close>

lemma stats_loop_eq:
  "stats_loop qs (f, s, a, ds) =
     (foldl (\<lambda>f d. if d <s f then d else f) f (map timeDiff qs),
      foldl (\<lambda>s d. if s <s d then d else s) s (map timeDiff qs),
      foldl (\<lambda>a d. f64_add a (f64_of_int64 d)) a (map timeDiff qs),
      ds @ map timeDiff qs)"
  by (induction qs arbitrary: f s a ds) simp_all

lemma getQueriesStats_timeDiffs:
  assumes "map timeDiff qs = map timeDiff qs'"
  shows "getQueriesStats qs = getQueriesStats qs'"
proof -
  have "length (map timeDiff qs) = length (map timeDiff qs')" using assms by simp
  then have len: "length qs = length qs'" by simp
  show ?thesis by (simp only: getQueriesStats_def stats_loop_eq assms len)
qed

lemma map_sint_sort_key: "map sint (sort_key sint ds) = sort (map sint ds)"
proof -
  have "mset (map sint (sort_key sint ds)) = mset (map sint ds)" by simp
  moreover have "sorted (map sint (sort_key sint ds))" by (rule sorted_sort_key)
  ultimately show ?thesis by (rule properties_for_sort[symmetric])
qed

lemma median_of_exact_gen:
  assumes ne: "ds \<noteq> []"
    and one: "\<And>d. d \<in> set ds \<Longrightarrow> \<bar>sint d\<bar> \<le> 2 ^ 53"
    and two: "\<And>i j. i < j \<Longrightarrow> j < length ds \<Longrightarrow>
                \<bar>sint (sort_key sint ds ! i) + sint (sort_key sint ds ! j)\<bar> \<le> 2 ^ 53"
  shows "median_of ds = Inr (spec_median (map sint ds))"
proof -
  define sorted where "sorted = sort_key sint ds"
  define n where "n = length ds"
  have len: "length sorted = n" by (simp add: sorted_def n_def)
  have n0: "0 < n" using ne by (simp add: n_def)
  have ms: "map sint sorted = sort (map sint ds)" by (simp add: sorted_def map_sint_sort_key)
  have nth: "sint (sorted ! i) = sort (map sint ds) ! i" if "i < n" for i
    using that len nth_map[of i sorted sint] ms by simp
  have b: "\<bar>sint (sorted ! i)\<bar> \<le> 2 ^ 53" if "i < n" for i
  proof -
    have "sorted ! i \<in> set sorted" using that len by simp
    then have "sorted ! i \<in> set ds" by (simp add: sorted_def)
    then show ?thesis by (rule one)
  qed
  have idx: "index sorted (int i) = Inr (sorted ! i)" if "i < n" for i
    using that len by (simp add: index_def)
  have half: "int n div 2 = int (n div 2)" by simp
  show ?thesis
  proof (cases "odd n")
    case True
    have m: "n div 2 < n" using n0 by simp
    have "f64_of_int64 (sorted ! (n div 2)) = of_int (sort (map sint ds) ! (n div 2))"
      using b[OF m] by (simp add: f64_of_int64_def round_f64_of_int nth[OF m])
    moreover have "int n mod 2 \<noteq> 0" using True by presburger
    ultimately have "median_of ds = Inr (of_int (sort (map sint ds) ! (n div 2)))"
      unfolding median_of_def sorted_def[symmetric] Let_def len half idx[OF m]
      by simp
    then show ?thesis using True by (simp add: spec_median_def n_def)
  next
    case False
    then have n2: "2 \<le> n" using n0 by presburger
    have m: "n div 2 < n" using n0 by simp
    have m1: "n div 2 - 1 < n" using n0 by simp
    have lt: "n div 2 - 1 < n div 2" using n2 by simp
    have pre: "int (n div 2) - 1 = int (n div 2 - 1)" using n2 by simp
    let ?a = "sorted ! (n div 2 - 1)" and ?b = "sorted ! (n div 2)"
    have ab: "\<bar>sint ?a + sint ?b\<bar> \<le> 2 ^ 53"
      using two[OF lt] m by (simp only: sorted_def n_def)
    have "- (2 ^ 63) \<le> sint ?a + sint ?b" "sint ?a + sint ?b < 2 ^ 63"
      using ab by simp_all
    then have sum: "sint (?a + ?b) = sint ?a + sint ?b"
      by (simp add: sint_word_add signed_take_bit_int_eq_self)
    have "f64_div (f64_of_int64 (?a + ?b)) 2 = of_int (sint ?a + sint ?b) / 2"
      using ab by (simp only: f64_div_def f64_of_int64_def sum round_f64_of_int round_f64_half)
    then have r: "f64_div (f64_of_int64 (?a + ?b)) 2 =
        (of_int (sort (map sint ds) ! (n div 2 - 1)) + of_int (sort (map sint ds) ! (n div 2))) / 2"
      by (simp only: nth[OF m] nth[OF m1] of_int_add)
    have "int n mod 2 = 0" using False by presburger
    then have md: "median_of ds = Inr (f64_div (f64_of_int64 (?a + ?b)) 2)"
      unfolding median_of_def sorted_def[symmetric] Let_def len half pre idx[OF m] idx[OF m1]
      by simp
    have sm: "spec_median (map sint ds) =
        (of_int (sort (map sint ds) ! (n div 2 - 1)) + of_int (sort (map sint ds) ! (n div 2))) / 2"
      using False by (simp add: spec_median_def n_def Let_def)
    show ?thesis by (simp only: md r sm)
  qed
qed

lemma median_of_exact:
  assumes ne: "ds \<noteq> []" and bnd: "\<forall>d\<in>set ds. \<bar>sint d\<bar> \<le> 2 ^ 52"
  shows "median_of ds = Inr (spec_median (map sint ds))"
proof (rule median_of_exact_gen[OF ne])
  fix d assume "d \<in> set ds"
  then have "\<bar>sint d\<bar> \<le> 2 ^ 52" using bnd by blast
  then show "\<bar>sint d\<bar> \<le> 2 ^ 53" by simp
next
  fix i j assume ij: "i < j" "j < length ds"
  have "sort_key sint ds ! i \<in> set (sort_key sint ds)" "sort_key sint ds ! j \<in> set (sort_key sint ds)"
    by (rule nth_mem, use ij in simp)+
  then have "\<bar>sint (sort_key sint ds ! i)\<bar> \<le> 2 ^ 52" "\<bar>sint (sort_key sint ds ! j)\<bar> \<le> 2 ^ 52"
    using bnd by simp_all
  then show "\<bar>sint (sort_key sint ds ! i) + sint (sort_key sint ds ! j)\<bar> \<le> 2 ^ 53"
    by simp
qed

lemma fold_min_le:
  "sint (foldl (\<lambda>f d. if d <s f then d else f) f ds) \<le> sint f \<and>
   (\<forall>d\<in>set ds. sint (foldl (\<lambda>f d. if d <s f then d else f) f ds) \<le> sint d)"
proof (induction ds arbitrary: f)
  case Nil
  then show ?case by simp
next
  case (Cons a ds)
  show ?case using Cons.IH[of "if a <s f then a else f"]
    by (auto simp add: word_sless_alt)
qed

lemma fold_max_ge:
  "sint s \<le> sint (foldl (\<lambda>s d. if s <s d then d else s) s ds) \<and>
   (\<forall>d\<in>set ds. sint d \<le> sint (foldl (\<lambda>s d. if s <s d then d else s) s ds))"
proof (induction ds arbitrary: s)
  case Nil
  then show ?case by simp
next
  case (Cons a ds)
  show ?case using Cons.IH[of "if s <s a then a else s"]
    by (auto simp add: word_sless_alt)
qed

lemma fold_sum_exact:
  assumes "\<bar>k\<bar> + (\<Sum>d\<leftarrow>ds. \<bar>sint d\<bar>) \<le> 2 ^ 53"
  shows "foldl (\<lambda>a d. f64_add a (f64_of_int64 d)) (of_int k) ds = of_int (k + (\<Sum>d\<leftarrow>ds. sint d))"
  using assms
proof (induction ds arbitrary: k)
  case Nil
  then show ?case by simp
next
  case (Cons a ds)
  have nn: "0 \<le> (\<Sum>d\<leftarrow>ds. \<bar>sint d\<bar>)" by (rule sum_list_nonneg) auto
  have a: "\<bar>sint a\<bar> \<le> 2 ^ 53" using Cons.prems nn by simp
  have ka: "\<bar>k + sint a\<bar> \<le> 2 ^ 53" using Cons.prems nn by simp
  have "f64_add (of_int k) (f64_of_int64 a) = of_int (k + sint a)"
    using round_f64_of_int[OF a] round_f64_of_int[OF ka] by (simp add: f64_add_def f64_of_int64_def)
  moreover have "\<bar>k + sint a\<bar> + (\<Sum>d\<leftarrow>ds. \<bar>sint d\<bar>) \<le> 2 ^ 53" using Cons.prems by simp
  ultimately show ?case using Cons.IH[of "k + sint a"] by (simp add: add.assoc)
qed

lemma sum_list_lower: "(\<forall>x\<in>set xs. lo \<le> x) \<Longrightarrow> int (length xs) * lo \<le> sum_list xs"
  by (induction xs) (auto simp add: algebra_simps)

lemma sum_list_upper: "(\<forall>x\<in>set xs. x \<le> hi) \<Longrightarrow> sum_list xs \<le> int (length xs) * hi"
  by (induction xs) (auto simp add: algebra_simps)

lemma spec_median_between:
  assumes "xs \<noteq> []" and "\<forall>x\<in>set xs. lo \<le> x \<and> x \<le> hi"
  shows "of_int lo \<le> spec_median xs \<and> spec_median xs \<le> of_int hi"
proof -
  define s where "s = sort xs"
  define n where "n = length s"
  have n0: "0 < n" using assms(1) by (simp add: n_def s_def)
  have el: "lo \<le> s ! i \<and> s ! i \<le> hi" if "i < n" for i
  proof -
    have "s ! i \<in> set s" using that by (simp add: n_def)
    then show ?thesis using assms(2) by (simp add: s_def)
  qed
  have m: "n div 2 < n" and m1: "n div 2 - 1 < n" using n0 by simp_all
  show ?thesis
  proof (cases "odd n")
    case True
    then have "spec_median xs = of_int (s ! (n div 2))"
      by (simp add: spec_median_def s_def n_def)
    then show ?thesis using el[OF m] by simp
  next
    case False
    then have "spec_median xs = (of_int (s ! (n div 2 - 1)) + of_int (s ! (n div 2))) / 2"
      by (simp add: spec_median_def s_def n_def Let_def)
    moreover have "(of_int lo :: rat) \<le> of_int (s ! (n div 2 - 1))" "(of_int lo :: rat) \<le> of_int (s ! (n div 2))"
        "(of_int (s ! (n div 2 - 1)) :: rat) \<le> of_int hi" "(of_int (s ! (n div 2)) :: rat) \<le> of_int hi"
      using el[OF m] el[OF m1] by (simp_all only: of_int_le_iff)
    ultimately show ?thesis by (simp add: field_simps)
  qed
qed

lemma pair_le_sum_list:
  fixes ys :: "int list"
  assumes nn: "\<forall>y\<in>set ys. 0 \<le> y" and ij: "i < j" "j < length ys"
  shows "ys ! i + ys ! j \<le> sum_list ys"
proof -
  have ys: "ys = take j ys @ ys ! j # drop (Suc j) ys" using ij by (simp add: id_take_nth_drop)
  have "ys ! i = take j ys ! i" using ij by simp
  moreover have "take j ys ! i \<in> set (take j ys)" by (rule nth_mem) (use ij in simp)
  ultimately have mem: "ys ! i \<in> set (take j ys)" by simp
  have "\<forall>y\<in>set (take j ys). 0 \<le> y" using nn by (meson in_set_takeD)
  then have 1: "ys ! i \<le> sum_list (take j ys)" using mem by (simp add: member_le_sum_list)
  have "\<forall>y\<in>set (drop (Suc j) ys). 0 \<le> y" using nn by (meson in_set_dropD)
  then have 2: "0 \<le> sum_list (drop (Suc j) ys)" by (simp add: sum_list_nonneg)
  have "sum_list ys = sum_list (take j ys) + ys ! j + sum_list (drop (Suc j) ys)"
    by (subst ys) simp
  then show ?thesis using 1 2 by simp
qed

lemma round_f64_large:
  assumes "2 ^ 53 \<le> x"
  shows "2 ^ 53 \<le> round_f64 x"
proof -
  have "(0::rat) < 2 ^ 53" by simp
  then have xpos: "0 < x" using assms by (rule less_le_trans)
  then have x0: "x \<noteq> 0" by simp
  define e where "e = binade x"
  have up: "x < power_int 2 (e + 1)" using binade_upper[OF x0] xpos by (simp add: e_def)
  have lowb: "power_int 2 e \<le> x" using binade_lower[OF x0] xpos by (simp add: e_def)
  have e53: "53 \<le> e"
  proof (rule ccontr)
    assume "\<not> 53 \<le> e"
    then have "e + 1 \<le> 53" by simp
    then have "power_int (2::rat) (e + 1) \<le> power_int 2 53" by (rule power_int_increasing) simp
    then show False using up assms by simp
  qed
  define u :: rat where "u = power_int 2 (e - 52)"
  have u0: "0 < u" by (simp add: u_def zero_less_power_int)
  have pe: "power_int (2::rat) e = 2 ^ 52 * u"
    using power_int_add[of "2::rat" 52 "e - 52"] by (simp add: u_def)
  have "of_int (2 ^ 52) \<le> x / u" using lowb u0 by (simp add: pe field_simps)
  then have "2 ^ 52 \<le> round_half_even (x / u)" by (rule round_half_even_ge)
  then have "(of_int (2 ^ 52) :: rat) \<le> of_int (round_half_even (x / u))" by (simp only: of_int_le_iff)
  then have a: "2 ^ 52 * u \<le> of_int (round_half_even (x / u)) * u" using u0 by simp
  have b: "round_f64 x = of_int (round_half_even (x / u)) * u"
    using x0 by (simp add: round_f64_def u_def e_def)
  have "power_int (2::rat) 53 \<le> power_int 2 e" using e53 by (rule power_int_increasing) simp
  then have c: "(2::rat) ^ 53 \<le> 2 ^ 52 * u" using pe by simp
  have "2 ^ 53 \<le> of_int (round_half_even (x / u)) * u" using c a by (rule order_trans)
  then show ?thesis by (simp only: b)
qed

lemma abs_le_sum_abs:
  fixes xs :: "int list"
  shows "x \<in> set xs \<Longrightarrow> \<bar>x\<bar> \<le> (\<Sum>y\<leftarrow>xs. \<bar>y\<bar>)"
proof (induction xs)
  case Nil
  then show ?case by simp
next
  case (Cons a xs)
  have "0 \<le> (\<Sum>y\<leftarrow>xs. \<bar>y\<bar>)" by (rule sum_list_nonneg) auto
  then show ?case using Cons by auto
qed

lemma length_le_sum_abs:
  fixes xs :: "int list"
  assumes "\<forall>x\<in>set xs. x \<noteq> 0"
  shows "int (length xs) \<le> (\<Sum>x\<leftarrow>xs. \<bar>x\<bar>)"
  using assms by (induction xs) auto

lemma mean_between:
  fixes xs :: "int list"
  assumes ne: "xs \<noteq> []" and bound: "(\<Sum>x\<leftarrow>xs. \<bar>x\<bar>) \<le> 2 ^ 53"
    and lo: "\<forall>x\<in>set xs. lo \<le> x" and hi: "\<forall>x\<in>set xs. x \<le> hi"
    and lo_in: "lo \<in> set xs" and hi_in: "hi \<in> set xs"
  shows "of_int lo \<le> f64_div (of_int (sum_list xs)) (f64_of_int (int (length xs))) \<and>
         f64_div (of_int (sum_list xs)) (f64_of_int (int (length xs))) \<le> of_int hi"
proof -
  define n where "n = int (length xs)"
  define S where "S = sum_list xs"
  define F where "F = f64_of_int n"
  have n1: "1 \<le> n" using ne by (cases xs) (simp_all add: n_def)
  have elem: "\<bar>x\<bar> \<le> 2 ^ 53" if "x \<in> set xs" for x
    using abs_le_sum_abs[OF that] bound by simp
  have Sabs: "\<bar>S\<bar> \<le> 2 ^ 53" using sum_list_abs[of xs] bound by (simp add: S_def)
  have nlo: "n * lo \<le> S" using sum_list_lower[OF lo] by (simp add: n_def S_def)
  have nhi: "S \<le> n * hi" using sum_list_upper[OF hi] by (simp add: n_def S_def)
  have between: "of_int lo \<le> of_int S / F \<and> of_int S / F \<le> of_int hi"
  proof (cases "n \<le> 2 ^ 53")
    case True
    then have "F = of_int n" using n1 by (simp add: F_def f64_of_int_def round_f64_of_int)
    moreover have "(of_int (n * lo) :: rat) \<le> of_int S" "(of_int S :: rat) \<le> of_int (n * hi)"
      using nlo nhi by (simp_all only: of_int_le_iff)
    ultimately show ?thesis using n1 by (simp add: field_simps)
  next
    case False
    then have "2 ^ 53 \<le> n" by simp
    then have "(of_int (2 ^ 53) :: rat) \<le> of_int n" by (simp only: of_int_le_iff)
    then have "2 ^ 53 \<le> F" unfolding F_def f64_of_int_def by (intro round_f64_large) simp
    then have F53: "of_int (2 ^ 53) \<le> F" by simp
    have Fpos: "0 < F" using F53 by simp
    have "(of_int \<bar>S\<bar> :: rat) \<le> of_int (2 ^ 53)" using Sabs by (simp only: of_int_le_iff)
    then have SF: "of_int \<bar>S\<bar> \<le> F" using F53 by (rule order_trans)
    have "\<not> (\<forall>x\<in>set xs. x \<noteq> 0)"
    proof
      assume "\<forall>x\<in>set xs. x \<noteq> 0"
      then have "n \<le> (\<Sum>x\<leftarrow>xs. \<bar>x\<bar>)" unfolding n_def by (rule length_le_sum_abs)
      then show False using bound False by simp
    qed
    then have z: "0 \<in> set xs" by simp
    have lo0: "lo \<le> 0" and hi0: "0 \<le> hi" using z lo hi by auto
    have upper: "of_int S / F \<le> of_int hi"
    proof (cases "0 < S")
      case True
      then have "0 < n * hi" using nhi by simp
      then have "1 \<le> hi" using n1 by (smt (verit) mult_le_0_iff)
      then have "(1::rat) \<le> of_int hi" by simp
      moreover have "of_int S / F \<le> 1" using SF True Fpos by (simp add: field_simps)
      ultimately show ?thesis by simp
    next
      case False
      then have "of_int S / F \<le> 0" using Fpos by (simp add: field_simps)
      moreover have "(0::rat) \<le> of_int hi" using hi0 by simp
      ultimately show ?thesis by simp
    qed
    have lower: "of_int lo \<le> of_int S / F"
    proof (cases "S < 0")
      case True
      then have "n * lo < 0" using nlo by simp
      then have "lo \<le> - 1" using n1 by (smt (verit) mult_nonneg_nonneg)
      then have "of_int lo \<le> (- 1 :: rat)" by (metis of_int_le_iff of_int_minus of_int_1)
      moreover have "- 1 \<le> of_int S / F" using SF True Fpos by (simp add: field_simps)
      ultimately show ?thesis by simp
    next
      case False
      then have "0 \<le> of_int S / F" using Fpos by (simp add: field_simps)
      moreover have "of_int lo \<le> (0::rat)" using lo0 by simp
      ultimately show ?thesis by simp
    qed
    show ?thesis using lower upper by simp
  qed
  have "of_int lo \<le> round_f64 (of_int S / F) \<and> round_f64 (of_int S / F) \<le> of_int hi"
    using between elem[OF lo_in] elem[OF hi_in] by (intro round_f64_between) simp_all
  then show ?thesis by (simp add: f64_div_def S_def F_def n_def)
qed

lemma sum_list_sort_key:
  fixes g :: "'a \<Rightarrow> int"
  shows "sum_list (map g (sort_key f xs)) = sum_list (map g xs)"
proof -
  have "sum_mset (mset (map g (sort_key f xs))) = sum_mset (mset (map g xs))" by simp
  then show ?thesis by (simp only: sum_mset_sum_list)
qed

section \<open>Properties of the permit pool\<close>

lemma count_update:
  "i < length xs \<Longrightarrow>
     length (filter P (xs[i := v])) + (if P (xs ! i) then 1 else 0)
       = length (filter P xs) + (if P v then 1 else 0)"
proof (induction xs arbitrary: i)
  case Nil
  then show ?case by simp
next
  case (Cons a xs)
  show ?case
  proof (cases i)
    case 0
    then show ?thesis by simp
  next
    case (Suc j)
    then have "j < length xs" using Cons.prems by simp
    from Cons.IH[OF this] show ?thesis using Suc by simp
  qed
qed

lemma holding_counted:
  assumes "i < length xs" and "xs ! i = Holding"
  shows "0 < length (filter (\<lambda>p. p = Holding) xs)"
proof -
  have "xs ! i \<in> set xs" using assms(1) by (rule nth_mem)
  then have "Holding \<in> set (filter (\<lambda>p. p = Holding) xs)" using assms(2) by simp
  then show ?thesis by (rule length_pos_if_in_set)
qed

lemma step_invariant:
  assumes "step cap fails s s'"
    and "in_flight s = permits s" and "permits s \<le> cap" and "wg s = int (unfinished s)"
  shows "in_flight s' = permits s' \<and> permits s' \<le> cap \<and> wg s' = int (unfinished s')"
  using assms(1)
proof (cases rule: step.cases)
  case (acquire i)
  then show ?thesis
    using assms(2,3,4) count_update[of i "pcs s" "\<lambda>p. p = Holding" Holding]
      count_update[of i "pcs s" "\<lambda>p. p \<noteq> Finished" Holding]
    by (simp add: in_flight_def unfinished_def)
next
  case (release i)
  then show ?thesis
    using assms(2,3,4) count_update[of i "pcs s" "\<lambda>p. p = Holding" Released]
      count_update[of i "pcs s" "\<lambda>p. p \<noteq> Finished" Released]
    by (simp add: in_flight_def unfinished_def; arith)
next
  case (complete i)
  then show ?thesis
    using assms(2,3,4) count_update[of i "pcs s" "\<lambda>p. p = Holding" Finished]
      count_update[of i "pcs s" "\<lambda>p. p \<noteq> Finished" Finished]
    by (simp add: in_flight_def unfinished_def; arith)
next
  case runtime_exit
  then show ?thesis using assms(2,3,4) by (simp add: in_flight_def unfinished_def)
qed

lemma reachable_invariant:
  assumes "(step cap fails)\<^sup>*\<^sup>* (init n) s"
  shows "in_flight s = permits s \<and> permits s \<le> cap \<and> wg s = int (unfinished s)"
  using assms
proof (induction rule: rtranclp_induct)
  case base
  show ?case by (simp add: init_def in_flight_def unfinished_def)
next
  case (step y z)
  then show ?case using step_invariant[of cap fails y z] by blast
qed

lemma step_moves:
  assumes "step cap fails s s'" and "i < length (pcs s)" and "pcs s' ! i \<noteq> pcs s ! i"
  shows "(pcs s ! i = Spawned \<and> pcs s' ! i = Holding \<and> permits s < cap \<and> permits s' = permits s + 1) \<or>
         (pcs s ! i = Holding \<and> pcs s' ! i = Released \<and> permits s' + 1 = permits s) \<or>
         (pcs s ! i = Released \<and> pcs s' ! i = Finished \<and> permits s' = permits s \<and> wg s' = wg s - 1)"
  using assms(1)
proof (cases rule: step.cases)
  case (acquire j)
  then have "i = j" using assms(2,3) by (cases "i = j") simp_all
  then show ?thesis using acquire by simp
next
  case (release j)
  then have "i = j" using assms(2,3) by (cases "i = j") simp_all
  then show ?thesis using release by simp
next
  case (complete j)
  then have "i = j" using assms(2,3) by (cases "i = j") simp_all
  then show ?thesis using complete by simp
next
  case runtime_exit
  then show ?thesis using assms(3) by simp
qed

lemma step_path3:
  "step cap fails a b \<Longrightarrow> step cap fails b c \<Longrightarrow> step cap fails c d \<Longrightarrow>
     (step cap fails)\<^sup>*\<^sup>* x a \<Longrightarrow> (step cap fails)\<^sup>*\<^sup>* x d"
  by (meson rtranclp.rtrancl_into_rtrancl)

text \<open>
  Running the goroutines one after the other, as \<open>run_workers\<close> does, is a run of the pool
  whenever the channel has room for one permit; with no room the pool cannot move.
\<close>

lemma sequential_schedule:
  assumes "1 \<le> cap" and "k \<le> n"
  shows "(step cap fails)\<^sup>*\<^sup>* (init n)
           \<lparr>permits = 0, pcs = replicate k Finished @ replicate (n - k) Spawned,
            wg = int (n - k), dying = (\<exists>i<k. fails i), exited = False\<rparr>"
  using assms(2)
proof (induction k)
  case 0
  show ?case by (simp add: init_def)
next
  case (Suc k)
  let ?d = "\<exists>i<k. fails i"
  let ?pre = "replicate k Finished"
  let ?post = "replicate (n - Suc k) Spawned"
  let ?s0 = "\<lparr>permits = 0, pcs = ?pre @ Spawned # ?post, wg = int (n - k), dying = ?d, exited = False\<rparr>"
  let ?s1 = "\<lparr>permits = 1, pcs = ?pre @ Holding # ?post, wg = int (n - k), dying = ?d, exited = False\<rparr>"
  let ?s2 = "\<lparr>permits = 0, pcs = ?pre @ Released # ?post, wg = int (n - k), dying = ?d, exited = False\<rparr>"
  let ?s3 = "\<lparr>permits = 0, pcs = ?pre @ Finished # ?post, wg = int (n - k) - 1,
             dying = (?d \<or> fails k), exited = False\<rparr>"
  have kn: "k < n" using Suc.prems by simp
  have rep: "replicate (n - k) Spawned = Spawned # ?post"
    using kn by (metis Suc_diff_Suc replicate_Suc)
  have start: "(step cap fails)\<^sup>*\<^sup>* (init n) ?s0" using Suc.IH kn by (simp add: rep)
  have 1: "step cap fails ?s0 ?s1"
    using step.acquire[of ?s0 k cap fails] assms(1) by (simp add: nth_append list_update_append)
  have 2: "step cap fails ?s1 ?s2"
    using step.release[of ?s1 k cap fails] by (simp add: nth_append list_update_append)
  have 3: "step cap fails ?s2 ?s3"
    using step.complete[of ?s2 k cap fails] by (simp add: nth_append list_update_append)
  have "(step cap fails)\<^sup>*\<^sup>* (init n) ?s3" using 1 2 3 start by (rule step_path3)
  moreover have "?pre @ Finished # ?post = replicate (Suc k) Finished @ ?post"
    by (simp add: replicate_append_same)
  moreover have "int (n - k) - 1 = int (n - Suc k)" using kn by simp
  moreover have "(?d \<or> fails k) = (\<exists>i<Suc k. fails i)" by (auto simp add: less_Suc_eq)
  ultimately show ?case by (simp add: algebra_simps)
qed

lemma zero_capacity_blocks: "\<not> step 0 fails (init n) s'"
  by (auto simp add: init_def elim: step.cases)

text \<open>
  The pool and the dispatcher: a goroutine of \<open>run_workers\<close> panics exactly when its query
  fails, whatever ran before it, and the schedule of \<open>benchmark\<close> is a run of the pool that
  ends dying exactly when \<open>benchmark\<close> ends in the panic.
\<close>

lemma query_fails_frame:
  assumes "Client c' = Client c" and "Version c' = Version c"
    and "Scheme (Client.URL c') = Scheme (Client.URL c)"
    and "Host (Client.URL c') = Host (Client.URL c)"
  shows "isl (fst (getHTTPQuery lib c' q w)) = query_fails lib c q"
proof -
  have "(Client.URL c')\<lparr>Path := p, RawQuery := r\<rparr> = (Client.URL c)\<lparr>Path := p, RawQuery := r\<rparr>" for p r
    using assms(3,4) by (cases "Client.URL c'", cases "Client.URL c") simp
  then show ?thesis
    using assms(1,2) by (simp add: query_fails_def getHTTPQuery_def Let_def split: sum.splits)
qed

lemma worker_panics_iff:
  "isl (worker lib q (c, w, errorList, queryList)) = query_fails lib c q"
  using query_fails_frame[of c c lib q w]
  by (auto simp add: worker_def split: prod.splits sum.splits)

lemma worker_failure:
  "worker lib q st = Inl f \<Longrightarrow> f = NilPointerDereference"
  by (auto simp add: worker_def split: prod.splits sum.splits)

lemma worker_keeps_outcomes:
  assumes "worker lib q (c, w, errorList, queryList) = Inr (c', w', errorList', queryList')"
  shows "query_fails lib c' q' = query_fails lib c q'"
proof -
  have "c' = fst (snd (getHTTPQuery lib c q w))"
    using assms by (auto simp add: worker_def split: prod.splits sum.splits)
  then have "Client c' = Client c \<and> Version c' = Version c \<and>
      Scheme (Client.URL c') = Scheme (Client.URL c) \<and> Host (Client.URL c') = Host (Client.URL c)"
    by (simp add: getHTTPQuery_def Let_def)
  then show ?thesis
    using query_fails_frame[of c' c lib q' "\<lparr>now = 0, requests = []\<rparr>"] by (simp add: query_fails_def)
qed

lemma run_workers_panics_iff:
  "(run_workers lib queries (c, w, errorList, queryList) = Inl NilPointerDereference)
     = (\<exists>q\<in>set queries. query_fails lib c q)"
proof (induction queries arbitrary: c w errorList queryList)
  case Nil
  show ?case by simp
next
  case (Cons q qs)
  show ?case
  proof (cases "worker lib q (c, w, errorList, queryList)")
    case (Inl f)
    then have "f = NilPointerDereference" by (rule worker_failure)
    moreover have "query_fails lib c q" using worker_panics_iff[of lib q c w errorList queryList] Inl by simp
    ultimately show ?thesis using Inl by simp
  next
    case (Inr st')
    obtain c' w' el' ql' where st': "st' = (c', w', el', ql')" by (cases st') auto
    have nf: "\<not> query_fails lib c q" using worker_panics_iff[of lib q c w errorList queryList] Inr by simp
    have same: "query_fails lib c' q' = query_fails lib c q'" for q'
      using worker_keeps_outcomes[of lib q c w errorList queryList c' w' el' ql'] Inr st' by simp
    show ?thesis using Inr st' nf Cons.IH[of c' w' el' ql'] by (simp add: same)
  qed
qed

lemma run_workers_failure:
  "run_workers lib queries st = Inl f \<Longrightarrow> f = NilPointerDereference"
proof (induction queries arbitrary: st)
  case Nil
  then show ?case by simp
next
  case (Cons q qs)
  then show ?case by (auto split: sum.splits dest: worker_failure)
qed

lemma getQueriesStats_failure:
  "getQueriesStats queryList = Inl f \<Longrightarrow> f \<noteq> NilPointerDereference"
  by (auto simp add: getQueriesStats_def median_of_def index_def Let_def
      split: prod.splits sum.splits if_splits)

lemma benchmark_panics_iff:
  assumes "1 \<le> maxConcurrentWorkers"
  shows "(benchmark lib c queries maxConcurrentWorkers w = Inl NilPointerDereference)
           = (\<exists>q\<in>set queries. query_fails lib c q)"
proof (cases "run_workers lib queries (c, w, [], [])")
  case (Inl f)
  then have "f = NilPointerDereference" by (rule run_workers_failure)
  then show ?thesis
    using Inl assms run_workers_panics_iff[of lib queries c w "[]" "[]"] by (simp add: benchmark_def)
next
  case (Inr st)
  then have "\<not> (\<exists>q\<in>set queries. query_fails lib c q)"
    using run_workers_panics_iff[of lib queries c w "[]" "[]"] by simp
  moreover have "benchmark lib c queries maxConcurrentWorkers w \<noteq> Inl NilPointerDereference"
    using Inr assms getQueriesStats_failure
    by (auto simp add: benchmark_def split: prod.splits sum.splits)
  ultimately show ?thesis by simp
qed

lemma benchmark_schedule_in_pool:
  assumes "1 \<le> maxConcurrentWorkers"
  shows "(step (nat maxConcurrentWorkers) (\<lambda>i. query_fails lib c (queries ! i)))\<^sup>*\<^sup>*
           (init (length queries))
           \<lparr>permits = 0, pcs = replicate (length queries) Finished, wg = 0,
            dying = (benchmark lib c queries maxConcurrentWorkers w = Inl NilPointerDereference),
            exited = False\<rparr>"
proof -
  have "1 \<le> nat maxConcurrentWorkers" using assms by simp
  from sequential_schedule[OF this, of "length queries" "length queries"
      "\<lambda>i. query_fails lib c (queries ! i)"]
  have run: "(step (nat maxConcurrentWorkers) (\<lambda>i. query_fails lib c (queries ! i)))\<^sup>*\<^sup>*
           (init (length queries))
           \<lparr>permits = 0, pcs = replicate (length queries) Finished, wg = 0,
            dying = (\<exists>i<length queries. query_fails lib c (queries ! i)), exited = False\<rparr>"
    by simp
  have "(\<exists>i<length queries. query_fails lib c (queries ! i)) = (\<exists>q\<in>set queries. query_fails lib c q)"
    by (metis in_set_conv_nth)
  then show ?thesis using run by (simp only: benchmark_panics_iff[OF assms])
qed

lemma benchmark_zero_workers:
  assumes "queries \<noteq> []"
  shows "benchmark lib c queries 0 w = Inl NeverReturns \<and>
         \<not> step 0 fails (init (length queries)) s' \<and> 0 < unfinished (init (length queries))"
  using assms zero_capacity_blocks[of fails "length queries" s']
  by (simp add: benchmark_def unfinished_def init_def)

section \<open>Claims about the aggregator\<close>

text \<open>
  C1 (as the code has it). For every non-empty query list whose elapsed times
  \<open>End - Start\<close> all have magnitude at most \<open>2^52\<close>, \<open>getQueriesStats\<close> returns, and its
  median is the specification's median of the elapsed times: the middle element of the
  ascending list when the count is odd, the arithmetic mean of the two middle elements
  when it is even.
\<close>

theorem median_sorted_middle:
  assumes "qs \<noteq> []" and "\<forall>q\<in>set qs. \<bar>elapsed q\<bar> \<le> 2 ^ 52"
  shows "\<exists>st. getQueriesStats qs = Inr st \<and> Median st = spec_median (map elapsed qs)"
proof -
  have "map timeDiff qs \<noteq> []" using assms(1) by simp
  moreover have "\<forall>d\<in>set (map timeDiff qs). \<bar>sint d\<bar> \<le> 2 ^ 52"
    using assms(2) by (simp add: elapsed_def)
  ultimately have "median_of (map timeDiff qs) = Inr (spec_median (map sint (map timeDiff qs)))"
    by (rule median_of_exact)
  moreover have "elapsed = sint \<circ> timeDiff" by (rule ext) (simp add: elapsed_def)
  ultimately show ?thesis by (simp add: getQueriesStats_def stats_loop_eq)
qed

text \<open>
  The two examples of the specification, through the theorem: elapsed times \<open>[1,2,3]\<close>
  give the median \<open>2\<close>, and \<open>[1,2,3,4]\<close> give \<open>5/2\<close>.
\<close>

theorem median_sorted_middle_witness:
  "(\<exists>st. getQueriesStats
       [\<lparr>Query = '''', Start = 0, End = 1, Step = 0\<rparr>,
        \<lparr>Query = '''', Start = 0, End = 2, Step = 0\<rparr>,
        \<lparr>Query = '''', Start = 0, End = 3, Step = 0\<rparr>] = Inr st \<and> Median st = 2) \<and>
   (\<exists>st. getQueriesStats
       [\<lparr>Query = '''', Start = 0, End = 1, Step = 0\<rparr>,
        \<lparr>Query = '''', Start = 0, End = 2, Step = 0\<rparr>,
        \<lparr>Query = '''', Start = 0, End = 3, Step = 0\<rparr>,
        \<lparr>Query = '''', Start = 0, End = 4, Step = 0\<rparr>] = Inr st \<and> Median st = 5 / 2)"
proof -
  let ?q = "\<lambda>e. \<lparr>Query = '''', Start = 0, End = e, Step = 0\<rparr>"
  have e: "elapsed (?q 1) = 1" "elapsed (?q 2) = 2" "elapsed (?q 3) = 3" "elapsed (?q 4) = 4"
    by (simp_all add: elapsed_def timeDiff_def)
  have m3: "spec_median [1, 2, 3] = 2" by (simp add: spec_median_def)
  have m4: "spec_median [1, 2, 3, 4] = 5 / 2" by (simp add: spec_median_def)
  have "\<forall>q\<in>set [?q 1, ?q 2, ?q 3]. \<bar>elapsed q\<bar> \<le> 2 ^ 52" by (simp add: e)
  from median_sorted_middle[OF _ this] have 3:
    "\<exists>st. getQueriesStats [?q 1, ?q 2, ?q 3] = Inr st \<and> Median st = 2"
    by (simp add: e m3)
  have "\<forall>q\<in>set [?q 1, ?q 2, ?q 3, ?q 4]. \<bar>elapsed q\<bar> \<le> 2 ^ 52" by (simp add: e)
  from median_sorted_middle[OF _ this] have 4:
    "\<exists>st. getQueriesStats [?q 1, ?q 2, ?q 3, ?q 4] = Inr st \<and> Median st = 5 / 2"
    by (simp add: e m4)
  from 3 4 show ?thesis by (rule conjI)
qed

text \<open>
  C1 as stated fails where the sum of the two middle elements leaves \<^verbatim>\<open>int64\<close>: for two
  queries of elapsed time \<open>2^62\<close> the sum wraps to \<open>-2^63\<close> and the median returned is
  \<open>-2^62\<close>, while the mean of the two middle elements is \<open>2^62\<close>.
\<close>

theorem median_wraps_counterexample:
  "getQueriesStats
     [\<lparr>Query = '''', Start = 0, End = 0x4000000000000000, Step = 0\<rparr>,
      \<lparr>Query = '''', Start = 0, End = 0x4000000000000000, Step = 0\<rparr>]
   = Inr \<lparr>Average = 4611686018427387904, Errors = [], Fastest = 0x4000000000000000,
          Median = - 4611686018427387904, Processed = 0, Slowest = 0x4000000000000000,
          Total = 0\<rparr>
   \<and> spec_median (map elapsed
     [\<lparr>Query = '''', Start = 0, End = 0x4000000000000000, Step = 0\<rparr>,
      \<lparr>Query = '''', Start = 0, End = 0x4000000000000000, Step = 0\<rparr>])
   = 4611686018427387904"
proof (rule conjI)
  show "getQueriesStats
     [\<lparr>Query = '''', Start = 0, End = 0x4000000000000000, Step = 0\<rparr>,
      \<lparr>Query = '''', Start = 0, End = 0x4000000000000000, Step = 0\<rparr>]
   = Inr \<lparr>Average = 4611686018427387904, Errors = [], Fastest = 0x4000000000000000,
          Median = - 4611686018427387904, Processed = 0, Slowest = 0x4000000000000000,
          Total = 0\<rparr>"
    by code_simp
  show "spec_median (map elapsed
     [\<lparr>Query = '''', Start = 0, End = 0x4000000000000000, Step = 0\<rparr>,
      \<lparr>Query = '''', Start = 0, End = 0x4000000000000000, Step = 0\<rparr>])
   = 4611686018427387904"
    by (simp add: spec_median_def elapsed_def timeDiff_def)
qed

text \<open>
  C5 (as the code has it). For every non-empty query list whose elapsed times have
  magnitudes that sum to at most \<open>2^53\<close>, \<open>getQueriesStats\<close> returns statistics with
  \<open>fastest \<le> median \<le> slowest\<close> and \<open>fastest \<le> average \<le> slowest\<close>.
\<close>

theorem stats_ordered:
  assumes ne: "qs \<noteq> []" and bound: "(\<Sum>q\<leftarrow>qs. \<bar>elapsed q\<bar>) \<le> 2 ^ 53"
  shows "\<exists>st. getQueriesStats qs = Inr st \<and>
           of_int (sint (Fastest st)) \<le> Median st \<and> Median st \<le> of_int (sint (Slowest st)) \<and>
           of_int (sint (Fastest st)) \<le> Average st \<and> Average st \<le> of_int (sint (Slowest st))"
proof -
  define ds where "ds = map timeDiff qs"
  define xs where "xs = map sint ds"
  define fastest where "fastest = foldl (\<lambda>f d. if d <s f then d else f) MaxInt64 ds"
  define slowest where "slowest = foldl (\<lambda>s d. if s <s d then d else s) 0 ds"
  define average where "average = foldl (\<lambda>a d. f64_add a (f64_of_int64 d)) 0 ds"
  have el: "elapsed = sint \<circ> timeDiff" by (rule ext) (simp add: elapsed_def)
  have dne: "ds \<noteq> []" and xne: "xs \<noteq> []" using ne by (simp_all add: ds_def xs_def)
  have len: "length xs = length qs" by (simp add: xs_def ds_def)
  have sum_ds: "(\<Sum>d\<leftarrow>ds. \<bar>sint d\<bar>) \<le> 2 ^ 53"
    using bound by (simp add: ds_def el comp_def)
  have sum_xs: "(\<Sum>x\<leftarrow>xs. \<bar>x\<bar>) \<le> 2 ^ 53"
    using sum_ds by (simp add: xs_def comp_def)
  have avg: "average = of_int (sum_list xs)"
    using fold_sum_exact[of 0 ds] sum_ds by (simp add: average_def xs_def)
  have one: "\<bar>sint d\<bar> \<le> 2 ^ 53" if "d \<in> set ds" for d
  proof -
    have "sint d \<in> set xs" using that by (simp add: xs_def)
    from abs_le_sum_abs[OF this] sum_xs show ?thesis by simp
  qed
  have two: "\<bar>sint (sort_key sint ds ! i) + sint (sort_key sint ds ! j)\<bar> \<le> 2 ^ 53"
    if "i < j" "j < length ds" for i j
  proof -
    define ys where "ys = map (\<lambda>d. \<bar>sint d\<bar>) (sort_key sint ds)"
    have "\<forall>y\<in>set ys. 0 \<le> y" by (auto simp add: ys_def)
    moreover have "j < length ys" using that by (simp add: ys_def)
    ultimately have "ys ! i + ys ! j \<le> sum_list ys" using that(1) by (intro pair_le_sum_list)
    moreover have "sum_list ys = (\<Sum>d\<leftarrow>ds. \<bar>sint d\<bar>)" unfolding ys_def by (rule sum_list_sort_key)
    moreover have "ys ! i = \<bar>sint (sort_key sint ds ! i)\<bar>" "ys ! j = \<bar>sint (sort_key sint ds ! j)\<bar>"
      using that by (simp_all add: ys_def)
    ultimately show ?thesis using sum_ds by simp
  qed
  have med: "median_of ds = Inr (spec_median xs)"
    unfolding xs_def using dne one two by (rule median_of_exact_gen)
  define st where "st = \<lparr>Average = f64_div average (f64_of_int (int (length qs))), Errors = [],
      Fastest = fastest, Median = spec_median xs, Processed = 0, Slowest = slowest, Total = 0\<rparr>"
  have res: "getQueriesStats qs = Inr st"
    by (simp add: getQueriesStats_def stats_loop_eq med[unfolded ds_def] st_def
        fastest_def slowest_def average_def ds_def)
  define lo where "lo = Min (set xs)"
  define hi where "hi = Max (set xs)"
  have lo_in: "lo \<in> set xs" and hi_in: "hi \<in> set xs"
    using xne by (simp_all add: lo_def hi_def)
  have lo: "\<forall>x\<in>set xs. lo \<le> x" and hi: "\<forall>x\<in>set xs. x \<le> hi"
    by (simp_all add: lo_def hi_def)
  obtain dl where dl: "dl \<in> set ds" "sint dl = lo" using lo_in by (auto simp add: xs_def)
  obtain dh where dh: "dh \<in> set ds" "sint dh = hi" using hi_in by (auto simp add: xs_def)
  have "sint fastest \<le> lo" using fold_min_le[of MaxInt64 ds] dl by (auto simp add: fastest_def)
  then have f_lo: "(of_int (sint fastest) :: rat) \<le> of_int lo" by (simp only: of_int_le_iff)
  have "hi \<le> sint slowest" using fold_max_ge[of 0 ds] dh by (auto simp add: slowest_def)
  then have hi_s: "(of_int hi :: rat) \<le> of_int (sint slowest)" by (simp only: of_int_le_iff)
  have m: "of_int lo \<le> spec_median xs \<and> spec_median xs \<le> of_int hi"
    using xne lo hi by (intro spec_median_between) auto
  have a: "of_int lo \<le> f64_div average (f64_of_int (int (length qs))) \<and>
           f64_div average (f64_of_int (int (length qs))) \<le> of_int hi"
    using mean_between[OF xne sum_xs lo hi lo_in hi_in] by (simp only: avg len)
  have "of_int (sint (Fastest st)) \<le> Median st \<and> Median st \<le> of_int (sint (Slowest st)) \<and>
        of_int (sint (Fastest st)) \<le> Average st \<and> Average st \<le> of_int (sint (Slowest st))"
    unfolding st_def using m a f_lo hi_s by (simp del: of_int_le_iff)
  with res show ?thesis by blast
qed

theorem stats_ordered_witness:
  "\<exists>st. getQueriesStats
       [\<lparr>Query = ''up'', Start = 10, End = 14, Step = 15\<rparr>,
        \<lparr>Query = ''up'', Start = 20, End = 21, Step = 15\<rparr>,
        \<lparr>Query = ''up'', Start = 30, End = 32, Step = 15\<rparr>] = Inr st \<and>
      of_int (sint (Fastest st)) \<le> Median st \<and> Median st \<le> of_int (sint (Slowest st)) \<and>
      of_int (sint (Fastest st)) \<le> Average st \<and> Average st \<le> of_int (sint (Slowest st))"
  by (rule stats_ordered) (simp_all add: elapsed_def timeDiff_def)

text \<open>
  C5 as stated fails on the same wrap-around as the median: for two queries of elapsed
  time \<open>2^62\<close> the fastest time is \<open>2^62\<close> and the median returned is \<open>-2^62\<close>.
\<close>

theorem stats_ordered_counterexample:
  "\<exists>st. getQueriesStats
       [\<lparr>Query = '''', Start = 0, End = 0x4000000000000000, Step = 0\<rparr>,
        \<lparr>Query = '''', Start = 0, End = 0x4000000000000000, Step = 0\<rparr>] = Inr st \<and>
      \<not> of_int (sint (Fastest st)) \<le> Median st"
proof -
  have "getQueriesStats
     [\<lparr>Query = '''', Start = 0, End = 0x4000000000000000, Step = 0\<rparr>,
      \<lparr>Query = '''', Start = 0, End = 0x4000000000000000, Step = 0\<rparr>]
   = Inr \<lparr>Average = 4611686018427387904, Errors = [], Fastest = 0x4000000000000000,
          Median = - 4611686018427387904, Processed = 0, Slowest = 0x4000000000000000,
          Total = 0\<rparr>"
    by code_simp
  then show ?thesis by simp
qed

text \<open>
  C10. The result of \<open>getQueriesStats\<close> depends only on the sequence of differences
  \<open>End - Start\<close>: two query lists of equal length whose differences coincide element by
  element give the same result (the same \<open>Stats\<close>, or the same panic), whatever their
  query texts, steps and absolute times. The aggregator is a function of its input, so
  repeated calls agree.
\<close>

theorem stats_depend_on_differences:
  assumes "length qs = length qs'"
    and "\<forall>i<length qs. End (qs ! i) - Start (qs ! i) = End (qs' ! i) - Start (qs' ! i)"
  shows "getQueriesStats qs = getQueriesStats qs'"
proof -
  have "map timeDiff qs = map timeDiff qs'"
    using assms by (intro nth_equalityI) (simp_all add: timeDiff_def)
  then show ?thesis by (rule getQueriesStats_timeDiffs)
qed

theorem stats_depend_on_differences_witness:
  "getQueriesStats
     [\<lparr>Query = ''up'', Start = 5, End = 8, Step = 15\<rparr>,
      \<lparr>Query = ''up'', Start = 7, End = 8, Step = 15\<rparr>]
   = getQueriesStats
     [\<lparr>Query = ''rate(x[5m])'', Start = 1000, End = 1003, Step = 60\<rparr>,
      \<lparr>Query = '''', Start = 0, End = 1, Step = 0\<rparr>]"
  using stats_depend_on_differences
    [of "[\<lparr>Query = ''up'', Start = 5, End = 8, Step = 15\<rparr>,
          \<lparr>Query = ''up'', Start = 7, End = 8, Step = 15\<rparr>]"
        "[\<lparr>Query = ''rate(x[5m])'', Start = 1000, End = 1003, Step = 60\<rparr>,
          \<lparr>Query = '''', Start = 0, End = 1, Step = 0\<rparr>]"]
  by (simp add: less_Suc_eq)

section \<open>Claims about the dispatcher and the client\<close>

text \<open>
  C2 fails on the code. A query whose call fails, by a transport error or by a status
  other than 200, leaves \<^verbatim>\<open>resp\<close> \<^verbatim>\<open>nil\<close>; the error is appended to the error list, and the
  next statement reads \<^verbatim>\<open>resp.StatusCode\<close> and panics. \<^verbatim>\<open>benchmark\<close> returns no statistics:
  here for a client whose calls all fail, with any queries after the first.
\<close>

theorem benchmark_failure_panics:
  "benchmark lib \<lparr>Client = (\<lambda>url. (rtt, Inl err)), URL = u, Version = v\<rparr> (q # qs) 1 w
     = Inl NilPointerDereference \<and>
   benchmark lib \<lparr>Client = (\<lambda>url. (rtt, Inr 500)), URL = u, Version = v\<rparr> (q # qs) 1 w
     = Inl NilPointerDereference"
  by (simp add: benchmark_def worker_def getHTTPQuery_def Let_def)

text \<open>
  C3 fails on the code. For no queries \<^verbatim>\<open>len(timeDiffs) % 2\<close> is 0, so \<^verbatim>\<open>getQueriesStats\<close>
  reads \<^verbatim>\<open>timeDiffs[mNumber-1]\<close>, which is \<^verbatim>\<open>timeDiffs[-1]\<close>, and panics; \<^verbatim>\<open>benchmark\<close> on
  an empty list of queries panics with it and returns no statistics.
\<close>

theorem empty_batch_panics:
  "getQueriesStats [] = Inl (IndexOutOfRange (- 1) 0) \<and>
   benchmark lib c [] 1 w = Inl (IndexOutOfRange (- 1) 0)"
  by (simp add: getQueriesStats_def median_of_def index_def benchmark_def)

text \<open>
  C4. In every state the goroutines of \<^verbatim>\<open>benchmark\<close> can reach, for every capacity of the
  permit channel, every number of queries and every outcome of the queries: the calls in
  flight are exactly the permits in the channel, and so at most the capacity; the wait
  group counts exactly the goroutines that are not finished; a goroutine that holds a
  permit can give it back at once, whether its query failed or not, as long as the
  process runs; and a goroutine changes its place only by taking a permit while there is
  room, which starts its call, by giving the permit back, or, after it has given the
  permit back, by counting as finished.
\<close>

theorem permits_bound_in_flight:
  assumes "(step cap fails)\<^sup>*\<^sup>* (init n) s"
  shows "in_flight s = permits s \<and> in_flight s \<le> cap \<and> wg s = int (unfinished s) \<and>
         (\<forall>i<length (pcs s). pcs s ! i = Holding \<longrightarrow> \<not> exited s \<longrightarrow>
            step cap fails s (s\<lparr>permits := permits s - 1, pcs := (pcs s)[i := Released]\<rparr>)) \<and>
         (\<forall>s' i. step cap fails s s' \<longrightarrow> i < length (pcs s) \<longrightarrow> pcs s' ! i \<noteq> pcs s ! i \<longrightarrow>
            (pcs s ! i = Spawned \<and> pcs s' ! i = Holding \<and> permits s < cap \<and>
               permits s' = permits s + 1) \<or>
            (pcs s ! i = Holding \<and> pcs s' ! i = Released \<and> permits s' + 1 = permits s) \<or>
            (pcs s ! i = Released \<and> pcs s' ! i = Finished \<and> permits s' = permits s \<and>
               wg s' = wg s - 1))"
proof -
  have inv: "in_flight s = permits s \<and> permits s \<le> cap \<and> wg s = int (unfinished s)"
    using assms by (rule reachable_invariant)
  have rel: "step cap fails s (s\<lparr>permits := permits s - 1, pcs := (pcs s)[i := Released]\<rparr>)"
    if "i < length (pcs s)" "pcs s ! i = Holding" "\<not> exited s" for i
  proof -
    have "0 < in_flight s" unfolding in_flight_def using that(1,2) by (rule holding_counted)
    then have "0 < permits s" using inv by simp
    with that show ?thesis by (intro step.release)
  qed
  show ?thesis using inv rel step_moves[of cap fails s] by simp
qed

theorem permits_bound_in_flight_witness:
  "in_flight \<lparr>permits = 1, pcs = [Finished, Holding, Spawned], wg = 2, dying = True, exited = False\<rparr> = 1 \<and>
   wg \<lparr>permits = 1, pcs = [Finished, Holding, Spawned], wg = 2, dying = True, exited = False\<rparr>
     = int (unfinished
         \<lparr>permits = 1, pcs = [Finished, Holding, Spawned], wg = 2, dying = True, exited = False\<rparr>) \<and>
   step 1 (\<lambda>i. i = 0)
     \<lparr>permits = 1, pcs = [Holding, Spawned, Spawned], wg = 3, dying = False, exited = False\<rparr>
     \<lparr>permits = 0, pcs = [Released, Spawned, Spawned], wg = 3, dying = False, exited = False\<rparr>"
proof -
  let ?f = "\<lambda>i::nat. i = 0"
  let ?s1 = "\<lparr>permits = 1, pcs = [Holding, Spawned, Spawned], wg = 3, dying = False, exited = False\<rparr>"
  let ?s2 = "\<lparr>permits = 0, pcs = [Released, Spawned, Spawned], wg = 3, dying = False, exited = False\<rparr>"
  let ?s3 = "\<lparr>permits = 0, pcs = [Finished, Spawned, Spawned], wg = 2, dying = True, exited = False\<rparr>"
  let ?s4 = "\<lparr>permits = 1, pcs = [Finished, Holding, Spawned], wg = 2, dying = True, exited = False\<rparr>"
  have 1: "step 1 ?f (init 3) ?s1"
    using step.acquire[of "init 3" 0 1 ?f] by (simp add: init_def numeral_3_eq_3)
  have 2: "step 1 ?f ?s1 ?s2"
    using step.release[of ?s1 0 1 ?f] by simp
  have 3: "step 1 ?f ?s2 ?s3"
    using step.complete[of ?s2 0 1 ?f] by simp
  have 4: "step 1 ?f ?s3 ?s4"
    using step.acquire[of ?s3 1 1 ?f] by simp
  have r1: "(step 1 ?f)\<^sup>*\<^sup>* (init 3) ?s1" using 1 by (rule r_into_rtranclp)
  have r4: "(step 1 ?f)\<^sup>*\<^sup>* (init 3) ?s4"
    using 2 3 4 r1 by (rule step_path3)
  have a: "in_flight ?s4 = 1 \<and> wg ?s4 = int (unfinished ?s4)"
    using permits_bound_in_flight[OF r4] by simp
  have "\<forall>i<length (pcs ?s1). pcs ?s1 ! i = Holding \<longrightarrow> \<not> exited ?s1 \<longrightarrow>
          step 1 ?f ?s1 (?s1\<lparr>permits := permits ?s1 - 1, pcs := (pcs ?s1)[i := Released]\<rparr>)"
    using permits_bound_in_flight[OF r1] by blast
  from this[rule_format, of 0] have b: "step 1 ?f ?s1 ?s2" by simp
  from a b show ?thesis by simp
qed

text \<open>
  C9 (as the code has it). Every call of \<^verbatim>\<open>getHTTPQuery\<close> makes exactly one outbound
  network call, and it overwrites the path and the raw query of the shared client's URL
  with the values built from the client's version and the query. The client's
  \<^verbatim>\<open>HttpClient\<close>, its version, and the scheme and the host of its URL are the same after
  the call as before it.
\<close>

theorem getHTTPQuery_frame:
  "case getHTTPQuery lib c q w of (r, c', w') \<Rightarrow>
     requests w' = requests w @ [url_string lib (Client.URL c')] \<and>
     Client c' = Client c \<and> Version c' = Version c \<and>
     Scheme (Client.URL c') = Scheme (Client.URL c) \<and>
     Host (Client.URL c') = Host (Client.URL c) \<and>
     Path (Client.URL c') = ''/api/'' @ Version c @ ''/query_range'' \<and>
     RawQuery (Client.URL c') =
       values_encode lib
         [(''query'', Query q),
          (''start'', format_rfc3339 lib (Query.Start q * 1000000)),
          (''end'', format_rfc3339 lib (Query.End q * 1000000)),
          (''step'', sprintf_d lib (Step q))]"
  by (simp add: getHTTPQuery_def Let_def)

text \<open>
  C9 as stated fails: the client of the test \<^verbatim>\<open>TestURL_getHTTPQuery\<close>, whose URL has an
  empty path before the call, has the path \<^verbatim>\<open>/api/v1/query_range\<close> after it.
\<close>

theorem getHTTPQuery_mutates_counterexample:
  "Path (Client.URL (fst (snd (getHTTPQuery
      \<lparr>format_rfc3339 = (\<lambda>ns. ''''), sprintf_d = (\<lambda>n. ''''), values_encode = (\<lambda>ps. ''''),
       url_string = (\<lambda>u. '''')\<rparr>
      \<lparr>Client = (\<lambda>url. (0, Inr 200)),
       URL = \<lparr>Scheme = ''https'', Host = ''promscale.xyz'', Path = '''', RawQuery = ''''\<rparr>,
       Version = ''v1''\<rparr>
      \<lparr>Query = ''some query'', Start = 100000, End = 999999, Step = 50\<rparr>
      \<lparr>now = 0, requests = []\<rparr>))))
   = ''/api/v1/query_range'' \<and>
   Path (Client.URL
      \<lparr>Client = (\<lambda>url. (0 :: int64, Inr 200 :: string + int)),
       URL = \<lparr>Scheme = ''https'', Host = ''promscale.xyz'', Path = '''', RawQuery = ''''\<rparr>,
       Version = ''v1''\<rparr>)
   = ''''"
  by (simp add: getHTTPQuery_def Let_def)

text \<open>
  C8 fails on the code. \<^verbatim>\<open>strings.TrimLeft(host, "http://")\<close> removes every leading
  character of the host that is one of \<open>h\<close>, \<open>t\<close>, \<open>p\<close>, \<open>:\<close> and \<open>/\<close>, not the prefix: the
  host \<^verbatim>\<open>http://promscale.xyz\<close> loses the \<open>p\<close> of its name as well.
\<close>

theorem trim_left_eats_host:
  "Client.URL (newHTTPClient net ''http://promscale.xyz'')
   = \<lparr>Scheme = ''http'', Host = ''romscale.xyz'', Path = '''', RawQuery = ''''\<rparr>"
  by (simp add: newHTTPClient_def getScheme_def TrimLeft_def TrimRight_def)

section \<open>Claims about start-up\<close>




text \<open>
  C7 fails on the code. For a record whose start time is not a number \<^verbatim>\<open>readFile\<close>
  returns the error, and \<^verbatim>\<open>main\<close> logs it without exiting: it goes on to call
  \<^verbatim>\<open>benchmark\<close> with the empty list \<^verbatim>\<open>readFile\<close> returned beside the error, where the
  process then stops in the panic of \<^verbatim>\<open>getQueriesStats\<close> on no queries.
\<close>

theorem malformed_record_reaches_benchmark:
  "main_until_benchmark [''pqlbench'', ''benchmark'', ''--filepath=q.csv'']
     (Inr (''q.csv'', 1, ''http://localhost:9201''))
     (\<lambda>path. Some (Inr [[''up'', ''abc'', ''1597059548699'', ''15000'']])) net
   = Inr (newHTTPClient net ''http://localhost:9201'', [], 1) \<and>
   main lib [''pqlbench'', ''benchmark'', ''--filepath=q.csv'']
     (Inr (''q.csv'', 1, ''http://localhost:9201''))
     (\<lambda>path. Some (Inr [[''up'', ''abc'', ''1597059548699'', ''15000'']])) net w
   = Inl (IndexOutOfRange (- 1) 0)"
  by (simp add: main_def main_until_benchmark_def parseFlags_def index_def readFile_def
      ParseInt_def getQueriesStats_def median_of_def benchmark_def)

end
